theory Spec2Isabelle
  imports Main "HOL-Library.Sublist"
begin

section \<open>Python strings\<close>

text \<open>
  Python \<open>str\<close> values are modelled as \<open>string\<close> (a list of 8-bit characters), which
  covers the ASCII text the script handles. The test \<open>a in b\<close> on strings is
  \<^const>\<open>sublist\<close> (a contiguous occurrence).
\<close>

definition newline :: char where
  "newline = CHR 0x0A"

definition dquote :: char where
  "dquote = CHR 0x22"

text \<open>\<open>str.isspace\<close> on the ASCII range: TAB, LF, VT, FF, CR, FS, GS, RS, US and space.\<close>

definition isspace :: "char \<Rightarrow> bool" where
  "isspace c = (c \<in> set [CHR 0x09, CHR 0x0A, CHR 0x0B, CHR 0x0C, CHR 0x0D,
                          CHR 0x1C, CHR 0x1D, CHR 0x1E, CHR 0x1F, CHR 0x20])"

text \<open>\<open>s.strip()\<close>: leading and trailing whitespace removed.\<close>

definition strip :: "string \<Rightarrow> string" where
  "strip s = rev (dropWhile isspace (rev (dropWhile isspace s)))"

text \<open>\<open>re.sub(r'\n+', ',', s)\<close>: every maximal run of newlines becomes one comma.\<close>

function re_sub_newlines :: "string \<Rightarrow> string" where
  "re_sub_newlines [] = []"
| "re_sub_newlines (c # cs) =
     (if c = newline then CHR '','' # re_sub_newlines (dropWhile (\<lambda>x. x = newline) cs)
      else c # re_sub_newlines cs)"
  by pat_completeness auto
termination
  by (relation "measure length") (auto simp: less_Suc_eq_le length_dropWhile_le)

section \<open>POSIX paths\<close>

text \<open>\<open>os.path.isabs\<close>, \<open>os.path.join\<close> on two arguments and \<open>os.path.dirname\<close>, as
  \<open>posixpath\<close> defines them.\<close>

definition os_path_isabs :: "string \<Rightarrow> bool" where
  "os_path_isabs p = (case p of [] \<Rightarrow> False | c # _ \<Rightarrow> c = CHR ''/'')"

definition os_path_join :: "string \<Rightarrow> string \<Rightarrow> string" where
  "os_path_join a b =
     (if os_path_isabs b then b
      else if a = [] \<or> last a = CHR ''/'' then a @ b
      else a @ ''/'' @ b)"

definition os_path_dirname :: "string \<Rightarrow> string" where
  "os_path_dirname p =
     (let head = rev (dropWhile (\<lambda>c. c \<noteq> CHR ''/'') (rev p))
      in if head \<noteq> [] \<and> filter (\<lambda>c. c \<noteq> CHR ''/'') head \<noteq> []
         then rev (dropWhile (\<lambda>c. c = CHR ''/'') (rev head))
         else head)"

section \<open>The process state and the outside world\<close>

text \<open>
  Every exception the script can meet is an instance of Python's \<open>Exception\<close>; the
  handlers of the script do not look at its class, so one constructor carrying the
  exception's text is enough.
\<close>

datatype exn = PyException string

text \<open>The \<open>CompletedProcess\<close> that \<open>subprocess.run\<close> returns.\<close>

record completed_process =
  returncode :: int
  stdout :: string
  stderr :: string

text \<open>
  The three branches of the commit check of \<open>git_commit_and_push\<close> (source lines 110-117):
  the warning "Nothing to commit" is \<open>NoChange\<close>, the info "Submitted successfully" is
  \<open>Committed\<close>, the error "Submission Failed" is \<open>Failed\<close>.
\<close>

datatype commit_outcome = NoChange | Committed | Failed

text \<open>The records written through \<open>logging\<close>, one constructor per call site.\<close>

datatype log_entry =
    ConfigSaved string
  | ErrorBackingUp string exn
  | Retrying string nat nat
  | MaxRetriesReached string
  | GitCommandError string int string
  | CommitLogged commit_outcome string
  | ErrorCommittingAndPushing exn

text \<open>
  What the process does to the outside world, in the order it does it. \<open>Run cmd d\<close> is
  \<open>subprocess.run(cmd, shell=True, ...)\<close> started while the current directory of the
  process is \<open>d\<close> (a child process inherits it). \<open>Connect\<close> carries the \<open>device\<close>
  dictionary handed to \<open>ConnectHandler\<close>.
\<close>

datatype event =
    Connect string string string string string
  | FindPrompt
  | SendCommandExpect string string
  | SendCommand string
  | Disconnect
  | Chdir string
  | Run string string
  | Log log_entry

text \<open>
  The state shared by all tasks of the process:
  \<^item> \<open>cwd\<close>, the current directory of the process, by its canonical path (absolute,
    without symbolic links, \<open>.\<close>, \<open>..\<close> or superfluous slashes), as \<open>os.getcwd\<close> shows it;
  \<^item> \<open>dirs\<close>, the directories that exist, by their canonical paths;
  \<^item> \<open>realpath\<close>, the canonical path a path leads to (\<open>os.path.realpath\<close>):
    \<open>/srv/app/xxx/\<close> leads to \<open>/srv/app/xxx\<close>, and a symbolic link to its target;
  \<^item> \<open>files\<close>, the contents of the files written;
  \<^item> \<open>trace\<close>, the events so far.
\<close>

record state =
  cwd :: string
  dirs :: "string set"
  realpath :: "string \<Rightarrow> string"
  files :: "string \<rightharpoonup> string"
  trace :: "event list"

definition emit :: "event \<Rightarrow> state \<Rightarrow> state" where
  "emit e st = st\<lparr>trace := trace st @ [e]\<rparr>"

text \<open>
  \<open>os.chdir(path)\<close>. The directory entered is the one the path leads to; for \<open>'..'\<close>
  it is the parent of the current directory itself, which the canonical path of the
  current directory names (not the parent of the path last given to \<open>os.chdir\<close>). The
  call raises when there is no such directory and then leaves the state as it was.
\<close>

definition os_chdir :: "string \<Rightarrow> state \<Rightarrow> exn option \<times> state" where
  "os_chdir path st =
     (let target = (if path = ''..'' then os_path_dirname (cwd st)
                    else if os_path_isabs path then realpath st path
                    else realpath st (os_path_join (cwd st) path))
      in if target \<in> dirs st then (None, emit (Chdir path) (st\<lparr>cwd := target\<rparr>))
         else (Some (PyException ''FileNotFoundError''), st))"

definition run :: "string \<Rightarrow> state \<Rightarrow> state" where
  "run cmd st = emit (Run cmd (cwd st)) st"

section \<open>The environment of one attempt\<close>

text \<open>
  The answers of the outside world are parameters of the model. For the three
  \<open>subprocess.run\<close> calls of the git pipeline: either the call raises, or it returns a
  \<open>CompletedProcess\<close>; \<open>now\<close> is the text of \<open>datetime.datetime.now()\<close>.
\<close>

record git_env =
  now :: string
  run_add :: "exn + completed_process"
  run_commit :: "exn + completed_process"
  run_push :: "exn + completed_process"

text \<open>
  \<open>open(path, 'w+')\<close> followed by \<open>f.write(output)\<close>: the open can raise (the file is
  untouched), the write can raise after the open has truncated the file (some part of the
  text is left in it), or both succeed.
\<close>

datatype write_result = WriteOk | OpenRaises exn | WriteRaises exn string

text \<open>
  The device as netmiko shows it during one attempt: whether \<open>ConnectHandler\<close> raises,
  what \<open>find_prompt\<close> returns, whether \<open>send_command_expect\<close> raises on a command, what
  \<open>send_command\<close> returns.
\<close>

record attempt_env =
  connect_handler :: "exn option"
  find_prompt :: "exn + string"
  send_command_expect :: "string \<Rightarrow> exn option"
  send_command :: "string \<Rightarrow> exn + string"
  write_file :: write_result
  git :: git_env

record device =
  ip :: string
  username :: string
  password :: string
  platform :: string
  role :: string

section \<open>\<open>git_commit_and_push\<close>\<close>

text \<open>Source lines 109-117: the text that is tested, and the branch taken.\<close>

definition classify_commit :: "string \<Rightarrow> string \<Rightarrow> commit_outcome" where
  "classify_commit filename out =
     (let commit_result = re_sub_newlines (strip out)
      in if sublist ''nothing to commit'' commit_result then NoChange
         else if sublist (''backup '' @ filename) commit_result then Committed
         else Failed)"

definition add_command :: "string \<Rightarrow> string" where
  "add_command filename = ''git add '' @ filename"

definition commit_command :: "string \<Rightarrow> string \<Rightarrow> string" where
  "commit_command filename t =
     ''git commit -m '' @ [dquote] @ ''backup '' @ filename @ '' '' @ t @ [dquote]"

definition push_command :: string where
  "push_command = ''git push''"

text \<open>The body of the \<open>try\<close> (source lines 98-123). It returns the exception raised, if any.\<close>

definition git_steps :: "string \<Rightarrow> git_env \<Rightarrow> state \<Rightarrow> exn option \<times> state" where
  "git_steps filename g st =
     (let st1 = run (add_command filename) st in
      case run_add g of
        Inl e \<Rightarrow> (Some e, st1)
      | Inr add_process \<Rightarrow>
          (let st2 = (if returncode add_process \<noteq> 0
                      then emit (Log (GitCommandError (add_command filename)
                                       (returncode add_process) (strip (stderr add_process)))) st1
                      else st1);
               st3 = run (commit_command filename (now g)) st2 in
           case run_commit g of
             Inl e \<Rightarrow> (Some e, st3)
           | Inr commit_process \<Rightarrow>
               (let st4 = emit (Log (CommitLogged
                                      (classify_commit filename (stdout commit_process)) filename)) st3;
                    st5 = run push_command st4 in
                case run_push g of
                  Inl e \<Rightarrow> (Some e, st5)
                | Inr push_process \<Rightarrow>
                    (None, if returncode push_process \<noteq> 0
                           then emit (Log (GitCommandError push_command
                                            (returncode push_process) (strip (stderr push_process)))) st5
                           else st5))))"

text \<open>
  Source lines 95-128: \<open>os.chdir(pro_dir)\<close> stands before the \<open>try\<close>, so its exception
  leaves the function at once; an exception of the body is logged by the handler; the
  \<open>finally\<close> clause runs \<open>os.chdir('..')\<close>, whose own exception leaves the function.
\<close>

definition git_commit_and_push :: "string \<Rightarrow> string \<Rightarrow> git_env \<Rightarrow> state \<Rightarrow> exn option \<times> state" where
  "git_commit_and_push filename pro_dir g st =
     (case os_chdir pro_dir st of
        (Some e, st0) \<Rightarrow> (Some e, st0)
      | (None, st1) \<Rightarrow>
          (case git_steps filename g st1 of
             (Some e, st2) \<Rightarrow> os_chdir ''..'' (emit (Log (ErrorCommittingAndPushing e)) st2)
           | (None, st2) \<Rightarrow> os_chdir ''..'' st2))"

text \<open>The state after the body of the \<open>try\<close> and, when it raised, the \<open>except\<close> clause.\<close>

definition after_steps :: "exn option \<times> state \<Rightarrow> state" where
  "after_steps rs =
     (case rs of (None, st2) \<Rightarrow> st2
      | (Some e, st2) \<Rightarrow> emit (Log (ErrorCommittingAndPushing e)) st2)"

section \<open>\<open>backup_config\<close>\<close>

definition config_filename :: "string \<Rightarrow> string \<Rightarrow> string \<Rightarrow> string" where
  "config_filename pf rl addr = pf @ ''-'' @ rl @ ''-'' @ addr @ ''-config.txt''"

definition session_log :: "string \<Rightarrow> device \<Rightarrow> string" where
  "session_log script_dir d =
     script_dir @ ''/logs/'' @ platform d @ ''-'' @ role d @ ''-'' @ ip d @ ''-session.log''"

text \<open>
  Source lines 66-73: the commands sent with \<open>send_command_expect\<close> once the prompt
  contains \<open>Y/N\<close>, each with its \<open>expect_string\<close>.
\<close>

definition pagination_commands :: "string \<Rightarrow> (string \<times> string) list" where
  "pagination_commands pf =
     (''N'', ''>'') #
     (if pf = ''hp_comware'' then [(''screen-length disable'', ''>'')]
      else if pf = ''huawei'' then [(''screen-length 0 temporary'', ''>'')]
      else if pf = ''ruijie_os'' then [(''terminal width 256'', ''#''), (''terminal length 0'', ''#'')]
      else [])"

text \<open>Source lines 75-78.\<close>

definition fetch_command :: "string \<Rightarrow> string" where
  "fetch_command pf = (if pf = ''ruijie_os'' then ''show running-config'' else ''display current'')"

text \<open>A sequence of \<open>conn.send_command_expect\<close> calls; the first exception ends it.\<close>

fun send_all :: "(string \<times> string) list \<Rightarrow> attempt_env \<Rightarrow> state \<Rightarrow> exn option \<times> state" where
  "send_all [] env st = (None, st)"
| "send_all ((c, p) # cs) env st =
     (case send_command_expect env c of
        Some e \<Rightarrow> (Some e, emit (SendCommandExpect c p) st)
      | None \<Rightarrow> send_all cs env (emit (SendCommandExpect c p) st))"

text \<open>Source lines 65-78, the body of the \<open>with\<close> block: the exception or the fetched text.\<close>

definition in_session :: "string \<Rightarrow> attempt_env \<Rightarrow> state \<Rightarrow> (exn + string) \<times> state" where
  "in_session pf env st =
     (let st1 = emit FindPrompt st in
      case find_prompt env of
        Inl e \<Rightarrow> (Inl e, st1)
      | Inr prompt \<Rightarrow>
          (case (if sublist ''Y/N'' prompt then send_all (pagination_commands pf) env st1
                 else (None, st1)) of
             (Some e, st2) \<Rightarrow> (Inl e, st2)
           | (None, st2) \<Rightarrow>
               (send_command env (fetch_command pf), emit (SendCommand (fetch_command pf)) st2)))"

text \<open>
  Source lines 56-78: \<open>with ConnectHandler(**device) as conn\<close>. When the constructor
  raises there is no session; otherwise the session is closed on every way out of the
  block.
\<close>

definition session :: "device \<Rightarrow> string \<Rightarrow> attempt_env \<Rightarrow> state \<Rightarrow> (exn + string) \<times> state" where
  "session d script_dir env st =
     (let st1 = emit (Connect (platform d) (ip d) (username d) (password d)
                        (session_log script_dir d)) st in
      case connect_handler env of
        Some e \<Rightarrow> (Inl e, st1)
      | None \<Rightarrow> (case in_session (platform d) env st1 of (r, st2) \<Rightarrow> (r, emit Disconnect st2)))"

text \<open>Source lines 81-82.\<close>

definition write_config :: "string \<Rightarrow> string \<Rightarrow> attempt_env \<Rightarrow> state \<Rightarrow> exn option \<times> state" where
  "write_config path output env st =
     (case write_file env of
        OpenRaises e \<Rightarrow> (Some e, st)
      | WriteRaises e part \<Rightarrow> (Some e, st\<lparr>files := (files st)(path \<mapsto> part)\<rparr>)
      | WriteOk \<Rightarrow> (None, st\<lparr>files := (files st)(path \<mapsto> output)\<rparr>))"

text \<open>The body of the \<open>try\<close> of the retry loop (source lines 56-84).\<close>

definition attempt :: "device \<Rightarrow> string \<Rightarrow> string \<Rightarrow> attempt_env \<Rightarrow> state \<Rightarrow> exn option \<times> state" where
  "attempt d script_dir pro_dir env st =
     (case session d script_dir env st of
        (Inl e, st1) \<Rightarrow> (Some e, st1)
      | (Inr output, st1) \<Rightarrow>
          (let filename = config_filename (platform d) (role d) (ip d) in
           case write_config (os_path_join pro_dir filename) output env st1 of
             (Some e, st2) \<Rightarrow> (Some e, st2)
           | (None, st2) \<Rightarrow>
               git_commit_and_push filename pro_dir (git env) (emit (Log (ConfigSaved filename)) st2)))"

text \<open>
  \<open>for retry_count in range(max_retries)\<close> (source lines 54-93): a normal end of the body
  reaches \<open>break\<close>; an exception is logged and the loop goes on with the next count.
  \<open>envs n\<close> is the environment the attempt with count \<open>n\<close> meets.
\<close>

fun retry_loop :: "nat list \<Rightarrow> nat \<Rightarrow> device \<Rightarrow> string \<Rightarrow> string \<Rightarrow> (nat \<Rightarrow> attempt_env) \<Rightarrow> state \<Rightarrow> state" where
  "retry_loop [] max_retries d script_dir pro_dir envs st = st"
| "retry_loop (retry_count # rest) max_retries d script_dir pro_dir envs st =
     (case attempt d script_dir pro_dir (envs retry_count) st of
        (None, st1) \<Rightarrow> st1
      | (Some e, st1) \<Rightarrow>
          retry_loop rest max_retries d script_dir pro_dir envs
            (emit (Log (if retry_count < max_retries - 1
                        then Retrying (ip d) (retry_count + 1) max_retries
                        else MaxRetriesReached (ip d)))
               (emit (Log (ErrorBackingUp (ip d) e)) st1)))"

definition max_retries :: nat where
  "max_retries = 5"

text \<open>The block under \<open>async with semaphore\<close> (source lines 54-93).\<close>

definition backup_config :: "device \<Rightarrow> string \<Rightarrow> string \<Rightarrow> (nat \<Rightarrow> attempt_env) \<Rightarrow> state \<Rightarrow> state" where
  "backup_config d script_dir pro_dir envs st =
     retry_loop [0..<max_retries] max_retries d script_dir pro_dir envs st"

section \<open>Observations on traces\<close>

fun is_connect :: "event \<Rightarrow> bool" where
  "is_connect (Connect _ _ _ _ _) = True"
| "is_connect _ = False"

fun is_run :: "event \<Rightarrow> bool" where
  "is_run (Run _ _) = True"
| "is_run _ = False"

fun is_chdir :: "event \<Rightarrow> bool" where
  "is_chdir (Chdir _) = True"
| "is_chdir _ = False"

text \<open>The commands sent to the device.\<close>

fun is_command :: "event \<Rightarrow> bool" where
  "is_command (SendCommandExpect _ _) = True"
| "is_command (SendCommand _) = True"
| "is_command _ = False"

text \<open>The records the handler of the retry loop writes (source lines 87-93).\<close>

fun is_retry_log :: "event \<Rightarrow> bool" where
  "is_retry_log (Log (ErrorBackingUp _ _)) = True"
| "is_retry_log (Log (Retrying _ _ _)) = True"
| "is_retry_log (Log (MaxRetriesReached _)) = True"
| "is_retry_log _ = False"

text \<open>The event of one \<open>send_command_expect\<close> call.\<close>

fun expect_event :: "string \<times> string \<Rightarrow> event" where
  "expect_event (c, p) = SendCommandExpect c p"

text \<open>The calls of a sequence that are made: all up to the first that raises.\<close>

fun issued :: "(string \<times> string) list \<Rightarrow> attempt_env \<Rightarrow> (string \<times> string) list" where
  "issued [] env = []"
| "issued ((c, p) # cs) env =
     (c, p) # (case send_command_expect env c of Some e \<Rightarrow> [] | None \<Rightarrow> issued cs env)"


text \<open>The two records the handler of the retry loop writes when the attempt with count
  \<open>k\<close> raised \<open>e k\<close> (source lines 87-93).\<close>

definition retry_records :: "device \<Rightarrow> nat \<Rightarrow> (nat \<Rightarrow> exn) \<Rightarrow> nat \<Rightarrow> event list" where
  "retry_records d m e k =
     [Log (ErrorBackingUp (ip d) (e k)),
      Log (if k < m - 1 then Retrying (ip d) (k + 1) m else MaxRetriesReached (ip d))]"

section \<open>Example inputs\<close>

text \<open>
  A script directory \<open>/srv/app\<close> with the clone \<open>/srv/app/xxx\<close> in it, the current
  directory being the script directory, as \<open>clone_repo\<close> leaves it (source line 33).
\<close>

definition example_state :: state where
  "example_state =
     \<lparr>cwd = ''/srv/app'', dirs = {''/srv/app'', ''/srv/app/xxx''}, realpath = (\<lambda>p. p),
      files = Map.empty, trace = []\<rparr>"

text \<open>The same, with \<open>/srv/app/xxx\<close> a symbolic link to a clone kept in \<open>/data/repos/xxx\<close>.\<close>

definition example_linked_state :: state where
  "example_linked_state =
     \<lparr>cwd = ''/srv/app'', dirs = {''/srv/app'', ''/data/repos'', ''/data/repos/xxx''},
      realpath = (\<lambda>p. if p = ''/srv/app/xxx'' then ''/data/repos/xxx'' else p),
      files = Map.empty, trace = []\<rparr>"

definition example_device :: device where
  "example_device =
     \<lparr>ip = ''10.0.0.1'', username = ''admin'', password = ''secret'',
      platform = ''huawei'', role = ''core''\<rparr>"

definition process_ok :: "string \<Rightarrow> completed_process" where
  "process_ok out = \<lparr>returncode = 0, stdout = out, stderr = []\<rparr>"

definition process_failed :: "string \<Rightarrow> completed_process" where
  "process_failed err = \<lparr>returncode = 1, stdout = [], stderr = err\<rparr>"

text \<open>A git whose three commands all exit with status 1.\<close>

definition git_failing :: git_env where
  "git_failing =
     \<lparr>now = ''2024-01-01'',
      run_add = Inr (process_failed ''fatal: add''),
      run_commit = Inr (process_failed ''fatal: commit''),
      run_push = Inr (process_failed ''fatal: push'')\<rparr>"

text \<open>A git that has nothing new to commit.\<close>

definition git_unchanged :: git_env where
  "git_unchanged =
     \<lparr>now = ''2024-01-01'',
      run_add = Inr (process_ok []),
      run_commit = Inr (process_ok ''nothing to commit, working tree clean''),
      run_push = Inr (process_ok [])\<rparr>"

text \<open>A git whose first \<open>subprocess.run\<close> raises.\<close>

definition git_raising :: git_env where
  "git_raising =
     \<lparr>now = ''2024-01-01'',
      run_add = Inl (PyException ''OSError''),
      run_commit = Inr (process_ok []),
      run_push = Inr (process_ok [])\<rparr>"


text \<open>A device that cannot be reached.\<close>

definition env_unreachable :: attempt_env where
  "env_unreachable =
     \<lparr>connect_handler = Some (PyException ''NetmikoTimeoutException''),
      find_prompt = Inr [],
      send_command_expect = (\<lambda>c. None),
      send_command = (\<lambda>c. Inr []),
      write_file = WriteOk,
      git = git_unchanged\<rparr>"

text \<open>A device that answers with the given prompt and returns the text \<open>cfg\<close>.\<close>

definition env_answering :: "string \<Rightarrow> git_env \<Rightarrow> attempt_env" where
  "env_answering prompt g =
     \<lparr>connect_handler = None,
      find_prompt = Inr prompt,
      send_command_expect = (\<lambda>c. None),
      send_command = (\<lambda>c. Inr ''cfg''),
      write_file = WriteOk,
      git = g\<rparr>"

section \<open>Coroutines\<close>

text \<open>
  \<open>backup_config\<close> and \<open>git_commit_and_push\<close> are \<open>async def\<close> functions, run as tasks of
  one event loop (\<open>asyncio.gather\<close>, source line 148). A task is given here as the tree of
  what it does next:
  \<^item> \<open>Return x\<close>: the coroutine returns \<open>x\<close>;
  \<^item> \<open>Sync f\<close>: one ordinary (blocking) call, which changes the state of the process and
    decides how the coroutine goes on; the event loop does not get control during it;
  \<^item> \<open>Acquire c\<close>: \<open>await semaphore.acquire()\<close>, the entry of \<open>async with semaphore\<close>,
    then \<open>c\<close>;
  \<^item> \<open>Release c\<close>: \<open>semaphore.release()\<close>, the exit of \<open>async with semaphore\<close>, then \<open>c\<close>;
  \<^item> \<open>Suspend c\<close>: an \<open>await\<close> that gives control back to the event loop, then \<open>c\<close>.

  The block under \<open>async with semaphore\<close> has one \<open>await\<close>, of \<open>git_commit_and_push\<close>
  (source line 84), a coroutine function in whose body there is no \<open>await\<close>: awaiting it
  runs its body as part of the caller, so no \<open>Suspend\<close> stands in the trees below.
  \<open>ConnectHandler\<close>, \<open>send_command\<close>, \<open>open\<close>, \<open>os.chdir\<close> and \<open>subprocess.run\<close> are
  ordinary calls.
\<close>

datatype 'a coro =
    Return 'a
  | Sync "state \<Rightarrow> state \<times> 'a coro"
  | Acquire "'a coro"
  | Release "'a coro"
  | Suspend "'a coro"

text \<open>Sequencing: \<open>bind c k\<close> is \<open>c\<close>, then \<open>k\<close> applied to what \<open>c\<close> returned.\<close>

primrec bind :: "'a coro \<Rightarrow> ('a \<Rightarrow> 'b coro) \<Rightarrow> 'b coro" where
  "bind (Return x) k = k x"
| "bind (Sync f) k = Sync (\<lambda>st. map_prod id (\<lambda>c. bind c k) (f st))"
| "bind (Acquire c) k = Acquire (bind c k)"
| "bind (Release c) k = Release (bind c k)"
| "bind (Suspend c) k = Suspend (bind c k)"

text \<open>What a coroutine does to the state when nothing else runs in between.\<close>

primrec sync :: "'a coro \<Rightarrow> state \<Rightarrow> 'a \<times> state" where
  "sync (Return x) = (\<lambda>st. (x, st))"
| "sync (Sync f) = (\<lambda>st. case map_prod id sync (f st) of (st', g) \<Rightarrow> g st')"
| "sync (Acquire c) = sync c"
| "sync (Release c) = sync c"
| "sync (Suspend c) = sync c"

text \<open>One ordinary call with a result, and one without.\<close>

definition call :: "(state \<Rightarrow> 'r \<times> state) \<Rightarrow> 'r coro" where
  "call f = Sync (\<lambda>st. case f st of (r, st') \<Rightarrow> (st', Return r))"

definition act :: "(state \<Rightarrow> state) \<Rightarrow> unit coro" where
  "act f = Sync (\<lambda>st. (f st, Return ()))"

text \<open>
  The functions of the script once more, now call by call: every \<open>subprocess.run\<close>,
  \<open>os.chdir\<close>, \<open>logging\<close> call and netmiko call is a step of its own. Source lines 98-123.
\<close>

definition git_steps_co :: "string \<Rightarrow> git_env \<Rightarrow> exn option coro" where
  "git_steps_co filename g =
     bind (act (run (add_command filename))) (\<lambda>_.
     case run_add g of
       Inl e \<Rightarrow> Return (Some e)
     | Inr add_process \<Rightarrow>
         bind (act (\<lambda>st. if returncode add_process \<noteq> 0
                         then emit (Log (GitCommandError (add_command filename)
                                          (returncode add_process) (strip (stderr add_process)))) st
                         else st)) (\<lambda>_.
         bind (act (run (commit_command filename (now g)))) (\<lambda>_.
         case run_commit g of
           Inl e \<Rightarrow> Return (Some e)
         | Inr commit_process \<Rightarrow>
             bind (act (emit (Log (CommitLogged
                                    (classify_commit filename (stdout commit_process)) filename)))) (\<lambda>_.
             bind (act (run push_command)) (\<lambda>_.
             case run_push g of
               Inl e \<Rightarrow> Return (Some e)
             | Inr push_process \<Rightarrow>
                 bind (act (\<lambda>st. if returncode push_process \<noteq> 0
                                 then emit (Log (GitCommandError push_command
                                                  (returncode push_process) (strip (stderr push_process)))) st
                                 else st)) (\<lambda>_.
                 Return None))))))"

text \<open>Source lines 95-128.\<close>

definition git_commit_and_push_co :: "string \<Rightarrow> string \<Rightarrow> git_env \<Rightarrow> exn option coro" where
  "git_commit_and_push_co filename pro_dir g =
     bind (call (os_chdir pro_dir)) (\<lambda>r.
     case r of
       Some e \<Rightarrow> Return (Some e)
     | None \<Rightarrow>
         bind (git_steps_co filename g) (\<lambda>r.
         bind (case r of
                 Some e \<Rightarrow> act (emit (Log (ErrorCommittingAndPushing e)))
               | None \<Rightarrow> Return ()) (\<lambda>_.
         call (os_chdir ''..''))))"

text \<open>Source lines 56-78: the session is opened, used and closed in three steps.\<close>

definition session_co :: "device \<Rightarrow> string \<Rightarrow> attempt_env \<Rightarrow> (exn + string) coro" where
  "session_co d script_dir env =
     bind (act (emit (Connect (platform d) (ip d) (username d) (password d)
                        (session_log script_dir d)))) (\<lambda>_.
     case connect_handler env of
       Some e \<Rightarrow> Return (Inl e)
     | None \<Rightarrow>
         bind (call (in_session (platform d) env)) (\<lambda>r.
         bind (act (emit Disconnect)) (\<lambda>_.
         Return r)))"

text \<open>Source lines 56-84.\<close>

definition attempt_co :: "device \<Rightarrow> string \<Rightarrow> string \<Rightarrow> attempt_env \<Rightarrow> exn option coro" where
  "attempt_co d script_dir pro_dir env =
     bind (session_co d script_dir env) (\<lambda>r.
     case r of
       Inl e \<Rightarrow> Return (Some e)
     | Inr output \<Rightarrow>
         (let filename = config_filename (platform d) (role d) (ip d) in
          bind (call (write_config (os_path_join pro_dir filename) output env)) (\<lambda>w.
          case w of
            Some e \<Rightarrow> Return (Some e)
          | None \<Rightarrow>
              bind (act (emit (Log (ConfigSaved filename)))) (\<lambda>_.
              git_commit_and_push_co filename pro_dir (git env)))))"

text \<open>Source lines 54-93.\<close>

fun retry_loop_co ::
  "nat list \<Rightarrow> nat \<Rightarrow> device \<Rightarrow> string \<Rightarrow> string \<Rightarrow> (nat \<Rightarrow> attempt_env) \<Rightarrow> unit coro" where
  "retry_loop_co [] retries d script_dir pro_dir envs = Return ()"
| "retry_loop_co (retry_count # rest) retries d script_dir pro_dir envs =
     bind (attempt_co d script_dir pro_dir (envs retry_count)) (\<lambda>r.
     case r of
       None \<Rightarrow> Return ()
     | Some e \<Rightarrow>
         bind (act (emit (Log (ErrorBackingUp (ip d) e)))) (\<lambda>_.
         bind (act (emit (Log (if retry_count < retries - 1
                               then Retrying (ip d) (retry_count + 1) retries
                               else MaxRetriesReached (ip d))))) (\<lambda>_.
         retry_loop_co rest retries d script_dir pro_dir envs)))"

text \<open>Source lines 51-93: the coroutine \<open>backup_config\<close>, with \<open>async with semaphore\<close>.\<close>

definition backup_config_co :: "device \<Rightarrow> string \<Rightarrow> string \<Rightarrow> (nat \<Rightarrow> attempt_env) \<Rightarrow> unit coro" where
  "backup_config_co d script_dir pro_dir envs =
     Acquire (bind (retry_loop_co [0..<max_retries] max_retries d script_dir pro_dir envs) (\<lambda>_.
     Release (Return ())))"

section \<open>The event loop\<close>

text \<open>
  The git commands of the task of a device: \<open>git add\<close> and \<open>git commit\<close> of the file of
  the device, the commit with the time of one of the attempts, and \<open>git push\<close>.
\<close>

definition git_commands :: "device \<Rightarrow> (nat \<Rightarrow> attempt_env) \<Rightarrow> string list" where
  "git_commands d envs =
     (let filename = config_filename (platform d) (role d) (ip d)
      in add_command filename # push_command #
         map (\<lambda>k. commit_command filename (now (git (envs k)))) [0..<max_retries])"

text \<open>An event that, if it is a \<open>subprocess.run\<close>, runs a git command of the device.\<close>

definition own_event :: "device \<Rightarrow> (nat \<Rightarrow> attempt_env) \<Rightarrow> event \<Rightarrow> bool" where
  "own_event d envs e = (case e of Run cmd dir \<Rightarrow> cmd \<in> set (git_commands d envs) | _ \<Rightarrow> True)"

text \<open>
  One call that leaves the directories and the paths as they are, and adds events with
  the property \<open>Q\<close> to the trace.
\<close>

definition steady :: "(event \<Rightarrow> bool) \<Rightarrow> state \<Rightarrow> state \<Rightarrow> bool" where
  "steady Q st st' =
     (dirs st' = dirs st \<and> realpath st' = realpath st \<and>
      (\<exists>evs. trace st' = trace st @ evs \<and> list_all Q evs))"

text \<open>A coroutine that neither touches the semaphore nor gives control back.\<close>

inductive quiet :: "(event \<Rightarrow> bool) \<Rightarrow> 'a coro \<Rightarrow> bool" for Q where
  Return: "quiet Q (Return x)"
| Sync: "(\<And>st. steady Q st (fst (f st))) \<Longrightarrow> (\<And>st. quiet Q (snd (f st))) \<Longrightarrow> quiet Q (Sync f)"

text \<open>
  The rest of the block under \<open>async with semaphore\<close>: ordinary calls, then the release
  of the semaphore, then the end of the task.
\<close>

inductive finishing :: "(event \<Rightarrow> bool) \<Rightarrow> unit coro \<Rightarrow> bool" for Q where
  Release: "finishing Q (Release (Return ()))"
| Sync: "(\<And>st. steady Q st (fst (f st))) \<Longrightarrow> (\<And>st. finishing Q (snd (f st))) \<Longrightarrow>
         finishing Q (Sync f)"

text \<open>
  The state of the event loop: the counter of the semaphore, what is left of each task,
  the task that has control (\<open>None\<close> when the event loop itself has it), the state of the
  process, and the events so far, each with the index of the task that made it.
\<close>

record loop_state =
  semaphore :: nat
  coros :: "unit coro list"
  running :: "nat option"
  world :: state
  history :: "(nat \<times> event) list"

text \<open>The events added to the trace between two states.\<close>

definition new_events :: "state \<Rightarrow> state \<Rightarrow> event list" where
  "new_events st st' = drop (length (trace st)) (trace st')"

text \<open>
  A task can be given control when it has not ended and, if it waits for the semaphore,
  when the counter is positive.
\<close>

definition ready :: "unit coro \<Rightarrow> nat \<Rightarrow> bool" where
  "ready c n = (case c of Return _ \<Rightarrow> False | Acquire _ \<Rightarrow> 0 < n | _ \<Rightarrow> True)"

text \<open>
  The task \<open>i\<close>, which has control, does its next step. It keeps control except when it
  ends, when it has to wait for the semaphore (\<open>asyncio.Semaphore.acquire\<close> returns at once
  when the counter is positive), or at a suspension point.
\<close>

definition exec :: "nat \<Rightarrow> loop_state \<Rightarrow> loop_state" where
  "exec i s =
     (case coros s ! i of
        Return _ \<Rightarrow> s\<lparr>running := None\<rparr>
      | Sync f \<Rightarrow>
          (case f (world s) of
             (w, c) \<Rightarrow>
               s\<lparr>coros := (coros s)[i := c], world := w,
                 history := history s @ map (Pair i) (new_events (world s) w)\<rparr>)
      | Acquire c \<Rightarrow>
          if 0 < semaphore s
          then s\<lparr>semaphore := semaphore s - 1, coros := (coros s)[i := c]\<rparr>
          else s\<lparr>running := None\<rparr>
      | Release c \<Rightarrow> s\<lparr>semaphore := semaphore s + 1, coros := (coros s)[i := c]\<rparr>
      | Suspend c \<Rightarrow> s\<lparr>coros := (coros s)[i := c], running := None\<rparr>)"

text \<open>
  A step of the program: the event loop gives control to any task that is ready, or the
  task that has control goes one step further. The order in which ready tasks are
  resumed is left open.
\<close>

inductive step :: "loop_state \<Rightarrow> loop_state \<Rightarrow> bool" where
  resume: "running s = None \<Longrightarrow> i < length (coros s) \<Longrightarrow> ready (coros s ! i) (semaphore s) \<Longrightarrow>
           step s (s\<lparr>running := Some i\<rparr>)"
| advance: "running s = Some i \<Longrightarrow> i < length (coros s) \<Longrightarrow> step s (exec i s)"

text \<open>
  \<open>asyncio.gather(*tasks)\<close> (source lines 142-148): one task per row of the device file;
  \<open>envs i n\<close> is the environment that the attempt with count \<open>n\<close> of task \<open>i\<close> meets.
\<close>

definition initial :: "nat \<Rightarrow> unit coro list \<Rightarrow> state \<Rightarrow> loop_state" where
  "initial capacity cs w =
     \<lparr>semaphore = capacity, coros = cs, running = None, world = w, history = []\<rparr>"

definition main_tasks ::
  "device list \<Rightarrow> string \<Rightarrow> string \<Rightarrow> (nat \<Rightarrow> nat \<Rightarrow> attempt_env) \<Rightarrow> unit coro list" where
  "main_tasks devs script_dir pro_dir envs =
     map (\<lambda>i. backup_config_co (devs ! i) script_dir pro_dir (envs i)) [0..<length devs]"

definition reachable ::
  "nat \<Rightarrow> device list \<Rightarrow> string \<Rightarrow> string \<Rightarrow> (nat \<Rightarrow> nat \<Rightarrow> attempt_env) \<Rightarrow> state \<Rightarrow> loop_state \<Rightarrow> bool" where
  "reachable capacity devs script_dir pro_dir envs w s =
     rtranclp step (initial capacity (main_tasks devs script_dir pro_dir envs) w) s"

text \<open>
  Where the tasks stand, for tasks \<open>cs0\<close> each of which is \<open>Acquire\<close> of a block without
  suspension point: a task without control has not started or has ended; the task with
  control has not started, has ended, or is inside its block and holds the semaphore.
\<close>

definition loop_inv :: "nat \<Rightarrow> unit coro list \<Rightarrow> (nat \<Rightarrow> event \<Rightarrow> bool) \<Rightarrow> loop_state \<Rightarrow> bool" where
  "loop_inv K cs0 Q s =
     ((\<forall>j<length cs0. \<exists>b. cs0 ! j = Acquire b \<and> finishing (Q j) b) \<and>
      length (coros s) = length cs0 \<and>
      (\<forall>j<length cs0. running s \<noteq> Some j \<longrightarrow> coros s ! j = cs0 ! j \<or> coros s ! j = Return ()) \<and>
      (case running s of
         None \<Rightarrow> semaphore s = K
       | Some i \<Rightarrow>
           i < length cs0 \<and> 0 < K \<and>
           ((coros s ! i = cs0 ! i \<or> coros s ! i = Return ()) \<and> semaphore s = K \<or>
            finishing (Q i) (coros s ! i) \<and> Suc (semaphore s) = K)))"

text \<open>The tasks that made the \<open>subprocess.run\<close> events of the history, in order.\<close>

definition git_owners :: "loop_state \<Rightarrow> nat list" where
  "git_owners s = map fst (filter (\<lambda>p. is_run (snd p)) (history s))"

text \<open>The property of the events of task \<open>j\<close>.\<close>

definition device_events :: "device list \<Rightarrow> (nat \<Rightarrow> nat \<Rightarrow> attempt_env) \<Rightarrow> nat \<Rightarrow> event \<Rightarrow> bool" where
  "device_events devs envs j = own_event (devs ! j) (envs j)"

text \<open>The state after task \<open>i\<close>, which has control, has run the rest of its block.\<close>

definition run_block :: "nat \<Rightarrow> loop_state \<Rightarrow> loop_state" where
  "run_block i s =
     s\<lparr>semaphore := Suc (semaphore s), coros := (coros s)[i := Return ()],
       world := snd (sync (coros s ! i) (world s)),
       history := history s @ map (Pair i) (new_events (world s) (snd (sync (coros s ! i) (world s))))\<rparr>"

text \<open>
  The state after task \<open>i\<close> was given control by the event loop and ran from its start to
  its end.
\<close>

definition run_task :: "nat \<Rightarrow> loop_state \<Rightarrow> loop_state" where
  "run_task i s =
     s\<lparr>coros := (coros s)[i := Return ()],
       world := snd (sync (coros s ! i) (world s)),
       history := history s @ map (Pair i) (new_events (world s) (snd (sync (coros s ! i) (world s))))\<rparr>"

text \<open>The capacity of the semaphore of the script (source lines 13-14).\<close>

definition MAX_CONCURRENT_BACKUPS :: nat where
  "MAX_CONCURRENT_BACKUPS = 10"

text \<open>Two devices, and a world in which every device answers.\<close>

definition example_devices :: "device list" where
  "example_devices = [example_device, example_device\<lparr>ip := ''10.0.0.2''\<rparr>]"

definition example_envs :: "nat \<Rightarrow> nat \<Rightarrow> attempt_env" where
  "example_envs i k = env_answering ''<HUAWEI>'' git_unchanged"

text \<open>The event loop before the first task runs, and after first task 0, then task 1 ran.\<close>

definition example_loop :: loop_state where
  "example_loop =
     initial MAX_CONCURRENT_BACKUPS
       (main_tasks example_devices ''/srv/app'' ''/srv/app/xxx'' example_envs) example_state"

definition example_run :: loop_state where
  "example_run = run_task 1 (run_task 0 example_loop)"

section \<open>Basic facts\<close>

lemma emit_simps [simp]:
  "cwd (emit e st) = cwd st"
  "dirs (emit e st) = dirs st"
  "realpath (emit e st) = realpath st"
  "files (emit e st) = files st"
  "trace (emit e st) = trace st @ [e]"
  by (simp_all add: emit_def)

lemma run_simps [simp]:
  "cwd (run cmd st) = cwd st"
  "dirs (run cmd st) = dirs st"
  "realpath (run cmd st) = realpath st"
  "files (run cmd st) = files st"
  "trace (run cmd st) = trace st @ [Run cmd (cwd st)]"
  by (simp_all add: run_def)

section \<open>The commit check reads the output of the process\<close>

lemma prefix_Cons_notin:
  assumes "c \<notin> set p" "prefix p (c # ys)"
  shows "p = []"
  using assms by (cases p) auto

lemma sublist_skip_char:
  assumes "c \<notin> set p" "p \<noteq> []"
  shows "sublist p (xs @ c # ys) \<longleftrightarrow> sublist p xs \<or> sublist p ys"
proof -
  have split: "sublist p xs" if "p = p1 @ p2" "suffix p1 xs" "prefix p2 (c # ys)" for p1 p2
  proof -
    from assms(1) that(1) have "c \<notin> set p2" by simp
    from this that(3) have "p2 = []" by (rule prefix_Cons_notin)
    with that(1,2) show ?thesis by simp
  qed
  have head: "sublist p (c # ys) \<longleftrightarrow> sublist p ys"
    using assms prefix_Cons_notin [of c p ys] by (auto simp: sublist_Cons_right)
  show ?thesis
    unfolding sublist_append [of p xs "c # ys"] head using split by blast
qed

lemma sublist_dropWhile_notin:
  assumes "p \<noteq> []" "\<not> P (hd p)"
  shows "sublist p (dropWhile P s) \<longleftrightarrow> sublist p s"
proof (induction s)
  case Nil
  then show ?case by simp
next
  case (Cons c s)
  show ?case
  proof (cases "P c")
    case True
    with assms have "\<not> prefix p (c # s)"
      by (cases p) auto
    with True Cons show ?thesis
      by (simp add: sublist_Cons_right)
  next
    case False
    then show ?thesis by simp
  qed
qed

lemma sublist_strip:
  assumes "p \<noteq> []" "\<not> isspace (hd p)" "\<not> isspace (last p)"
  shows "sublist p (strip s) \<longleftrightarrow> sublist p s"
proof -
  have "sublist p (strip s) \<longleftrightarrow> sublist (rev p) (dropWhile isspace (rev (dropWhile isspace s)))"
    unfolding strip_def by (simp add: sublist_rev_right)
  also have "\<dots> \<longleftrightarrow> sublist (rev p) (rev (dropWhile isspace s))"
    using assms by (intro sublist_dropWhile_notin) (simp_all add: hd_rev)
  also have "\<dots> \<longleftrightarrow> sublist p (dropWhile isspace s)"
    by simp
  also have "\<dots> \<longleftrightarrow> sublist p s"
    using assms by (intro sublist_dropWhile_notin)
  finally show ?thesis .
qed

lemma re_sub_newlines_append:
  "newline \<notin> set xs \<Longrightarrow> re_sub_newlines (xs @ ys) = xs @ re_sub_newlines ys"
  by (induction xs) auto

lemma sublist_re_sub_newlines:
  assumes "p \<noteq> []" "newline \<notin> set p" "CHR '','' \<notin> set p"
  shows "sublist p (re_sub_newlines s) \<longleftrightarrow> sublist p s"
proof (induction s rule: length_induct)
  case (1 s)
  show ?case
  proof (cases "newline \<in> set s")
    case False
    then have "re_sub_newlines s = s"
      using re_sub_newlines_append [of s "[]"] by simp
    then show ?thesis by simp
  next
    case True
    then obtain xs ys where s: "s = xs @ newline # ys" and xs: "newline \<notin> set xs"
      by (meson split_list_first)
    let ?r = "dropWhile (\<lambda>x. x = newline) ys"
    have "length ?r < length s"
      using length_dropWhile_le [of "\<lambda>x. x = newline" ys] s by simp
    with 1 have ih: "sublist p (re_sub_newlines ?r) \<longleftrightarrow> sublist p ?r"
      by blast
    have "newline \<noteq> hd p"
      using assms(1,2) by (cases p) auto
    then have r: "sublist p ?r \<longleftrightarrow> sublist p ys"
      using assms(1) by (intro sublist_dropWhile_notin) auto
    have "re_sub_newlines s = xs @ CHR '','' # re_sub_newlines ?r"
      using s xs by (simp add: re_sub_newlines_append)
    then have "sublist p (re_sub_newlines s) \<longleftrightarrow> sublist p xs \<or> sublist p (re_sub_newlines ?r)"
      using assms by (simp add: sublist_skip_char)
    also have "\<dots> \<longleftrightarrow> sublist p xs \<or> sublist p ys"
      using ih r by simp
    also have "\<dots> \<longleftrightarrow> sublist p s"
      using assms s by (simp add: sublist_skip_char)
    finally show ?thesis .
  qed
qed

text \<open>A pattern that survives both steps of the normalisation.\<close>

lemma sublist_commit_result:
  assumes "p \<noteq> []" "\<not> isspace (hd p)" "\<not> isspace (last p)"
    and "newline \<notin> set p" "CHR '','' \<notin> set p"
  shows "sublist p (re_sub_newlines (strip out)) \<longleftrightarrow> sublist p out"
  using assms by (simp add: sublist_re_sub_newlines sublist_strip)

lemma nothing_to_commit_raw:
  "sublist ''nothing to commit'' (re_sub_newlines (strip out)) \<longleftrightarrow> sublist ''nothing to commit'' out"
  by (rule sublist_commit_result) (simp_all add: isspace_def newline_def)

lemma backup_filename_raw:
  assumes "newline \<notin> set (pf @ rl @ addr)" "CHR '','' \<notin> set (pf @ rl @ addr)"
  shows "sublist (''backup '' @ config_filename pf rl addr) (re_sub_newlines (strip out))
         \<longleftrightarrow> sublist (''backup '' @ config_filename pf rl addr) out"
  using assms
  by (intro sublist_commit_result) (simp_all add: config_filename_def isspace_def newline_def)

text \<open>
  Claim C4, as amended. For a file name built from a platform, a role and an address
  that contain neither a comma nor a newline, the branch taken on the output \<open>out\<close> of
  the commit process is: \<open>NoChange\<close> when \<open>out\<close> contains "nothing to commit";
  otherwise \<open>Committed\<close> when it contains "backup " followed by the file name;
  otherwise \<open>Failed\<close>. The result is a function, so exactly one of the three is
  produced.
\<close>

theorem classify_commit_on_output:
  assumes "newline \<notin> set (pf @ rl @ addr)" and "CHR '','' \<notin> set (pf @ rl @ addr)"
  shows "classify_commit (config_filename pf rl addr) out =
           (if sublist ''nothing to commit'' out then NoChange
            else if sublist (''backup '' @ config_filename pf rl addr) out then Committed
            else Failed)"
  unfolding classify_commit_def Let_def
  by (simp only: nothing_to_commit_raw backup_filename_raw [OF assms])

theorem classify_commit_on_output_witness:
  "newline \<notin> set (''huawei'' @ ''core'' @ ''10.0.0.1'') \<and>
   CHR '','' \<notin> set (''huawei'' @ ''core'' @ ''10.0.0.1'') \<and>
   classify_commit (config_filename ''huawei'' ''core'' ''10.0.0.1'')
     ''[master 1a2b3c4] backup huawei-core-10.0.0.1-config.txt 2024-01-01 00:00:00.000000'' = Committed"
proof -
  have h1: "newline \<notin> set (''huawei'' @ ''core'' @ ''10.0.0.1'')"
    by (simp add: newline_def)
  have h2: "CHR '','' \<notin> set (''huawei'' @ ''core'' @ ''10.0.0.1'')"
    by simp
  show ?thesis
    using h1 h2 classify_commit_on_output [OF h1 h2,
        of "''[master 1a2b3c4] backup huawei-core-10.0.0.1-config.txt 2024-01-01 00:00:00.000000''"]
    by (simp add: config_filename_def sublist_code)
qed

text \<open>
  The test is made on the output after \<open>strip\<close> and after every run of newlines has
  become a comma. With a comma in the role, an output that has a newline at that place
  does not contain "backup " followed by the file name, yet the commit is logged as
  submitted.
\<close>

theorem classify_commit_comma_counterexample:
  "classify_commit (config_filename ''huawei'' ''a,b'' ''10.0.0.1'')
     (''backup huawei-a'' @ [newline] @ ''b-10.0.0.1-config.txt'')
   \<noteq> (if sublist ''nothing to commit'' (''backup huawei-a'' @ [newline] @ ''b-10.0.0.1-config.txt'')
       then NoChange
       else if sublist (''backup '' @ config_filename ''huawei'' ''a,b'' ''10.0.0.1'')
                 (''backup huawei-a'' @ [newline] @ ''b-10.0.0.1-config.txt'')
       then Committed else Failed)"
  by (simp add: classify_commit_def config_filename_def strip_def isspace_def newline_def sublist_code)

section \<open>The git pipeline\<close>

lemma os_chdir_abs:
  assumes "os_path_isabs p"
  shows "os_chdir p st =
           (if realpath st p \<in> dirs st then (None, emit (Chdir p) (st\<lparr>cwd := realpath st p\<rparr>))
            else (Some (PyException ''FileNotFoundError''), st))"
proof -
  have "p \<noteq> ''..''"
    using assms by (auto simp: os_path_isabs_def)
  with assms show ?thesis
    by (simp add: os_chdir_def)
qed

lemma os_chdir_parent:
  "os_chdir ''..'' st =
     (if os_path_dirname (cwd st) \<in> dirs st
      then (None, emit (Chdir ''..'') (st\<lparr>cwd := os_path_dirname (cwd st)\<rparr>))
      else (Some (PyException ''FileNotFoundError''), st))"
  by (simp add: os_chdir_def)

lemma os_chdir_frame_snd:
  "dirs (snd (os_chdir p st)) = dirs st"
  "realpath (snd (os_chdir p st)) = realpath st"
  "files (snd (os_chdir p st)) = files st"
  by (simp_all add: os_chdir_def Let_def)

lemma os_chdir_frame:
  assumes "os_chdir p st = (r, st')"
  shows "dirs st' = dirs st" and "files st' = files st" and "realpath st' = realpath st"
  using assms os_chdir_frame_snd [of p st] by simp_all

lemma git_steps_frame_snd:
  "cwd (snd (git_steps f g st)) = cwd st"
  "dirs (snd (git_steps f g st)) = dirs st"
  "files (snd (git_steps f g st)) = files st"
  "realpath (snd (git_steps f g st)) = realpath st"
  by (simp_all add: git_steps_def Let_def split: sum.splits)

lemma git_steps_frame:
  assumes "git_steps f g st = (r, st')"
  shows "cwd st' = cwd st" and "dirs st' = dirs st" and "files st' = files st"
    and "realpath st' = realpath st"
  using assms git_steps_frame_snd [of f g st] by simp_all


text \<open>The pipeline, case by case: what it returns and where it leaves the process.\<close>

lemma after_steps_frame [simp]:
  "cwd (after_steps (git_steps f g st)) = cwd st"
  "dirs (after_steps (git_steps f g st)) = dirs st"
  "files (after_steps (git_steps f g st)) = files st"
  "realpath (after_steps (git_steps f g st)) = realpath st"
  "filter is_run (trace (after_steps (git_steps f g st))) =
     filter is_run (trace (snd (git_steps f g st)))"
  using git_steps_frame_snd [of f g st]
  by (cases "git_steps f g st"; simp add: after_steps_def split: option.splits)+

lemma git_commit_and_push_unfold:
  "git_commit_and_push f pd g st =
     (case os_chdir pd st of
        (Some e, st0) \<Rightarrow> (Some e, st0)
      | (None, st1) \<Rightarrow> os_chdir ''..'' (after_steps (git_steps f g st1)))"
  by (simp add: git_commit_and_push_def after_steps_def split: prod.splits option.splits)

lemma git_commit_and_push_no_repo:
  assumes "os_path_isabs pd" "realpath st pd \<notin> dirs st"
  shows "git_commit_and_push f pd g st = (Some (PyException ''FileNotFoundError''), st)"
  using assms by (simp add: git_commit_and_push_unfold os_chdir_abs)

lemma git_commit_and_push_in_repo:
  assumes "os_path_isabs pd" "realpath st pd \<in> dirs st"
  shows "git_commit_and_push f pd g st =
           (let st2 = after_steps (git_steps f g (emit (Chdir pd) (st\<lparr>cwd := realpath st pd\<rparr>)))
            in if os_path_dirname (realpath st pd) \<in> dirs st
               then (None, emit (Chdir ''..'') (st2\<lparr>cwd := os_path_dirname (realpath st pd)\<rparr>))
               else (Some (PyException ''FileNotFoundError''), st2))"
  using assms by (simp add: git_commit_and_push_unfold os_chdir_abs os_chdir_parent Let_def)


lemma git_commit_and_push_frame:
  "files (snd (git_commit_and_push f pd g st)) = files st"
  "dirs (snd (git_commit_and_push f pd g st)) = dirs st"
  "realpath (snd (git_commit_and_push f pd g st)) = realpath st"
proof -
  obtain r1 st1 where c1: "os_chdir pd st = (r1, st1)"
    by (cases "os_chdir pd st")
  obtain r3 st3 where c3: "os_chdir ''..'' (after_steps (git_steps f g st1)) = (r3, st3)"
    by (cases "os_chdir ''..'' (after_steps (git_steps f g st1))")
  have a: "files st1 = files st" "dirs st1 = dirs st" "realpath st1 = realpath st"
    using os_chdir_frame [OF c1] by simp_all
  have b: "files st3 = files st" "dirs st3 = dirs st" "realpath st3 = realpath st"
    using os_chdir_frame [OF c3] a by simp_all
  have "snd (git_commit_and_push f pd g st) = st1 \<or> snd (git_commit_and_push f pd g st) = st3"
    using c1 c3 by (cases r1) (simp_all add: git_commit_and_push_unfold)
  with a b show "files (snd (git_commit_and_push f pd g st)) = files st"
    "dirs (snd (git_commit_and_push f pd g st)) = dirs st"
    "realpath (snd (git_commit_and_push f pd g st)) = realpath st"
    by auto
qed

lemmas git_commit_and_push_files = git_commit_and_push_frame(1)

lemmas git_commit_and_push_dirs = git_commit_and_push_frame(2)

text \<open>
  Claim C10, as amended. A call of \<open>git_commit_and_push\<close> with an absolute \<open>pro_dir\<close>
  returns exactly when both \<open>os.chdir\<close> calls succeed, and then the current directory of
  the process is the parent of the directory \<open>pro_dir\<close> leads to, whatever the three git
  commands did and whether the body of the \<open>try\<close> ended normally or raised. When
  \<open>pro_dir\<close> is the canonical path of that directory, this is the parent of \<open>pro_dir\<close>.
\<close>

theorem git_commit_and_push_leaves_parent:
  assumes "os_path_isabs pro_dir"
  shows "(fst (git_commit_and_push filename pro_dir g st) = None
            \<longleftrightarrow> realpath st pro_dir \<in> dirs st \<and> os_path_dirname (realpath st pro_dir) \<in> dirs st) \<and>
         (fst (git_commit_and_push filename pro_dir g st) = None
            \<longrightarrow> cwd (snd (git_commit_and_push filename pro_dir g st)) =
                  os_path_dirname (realpath st pro_dir)) \<and>
         (fst (git_commit_and_push filename pro_dir g st) = None \<and> realpath st pro_dir = pro_dir
            \<longrightarrow> cwd (snd (git_commit_and_push filename pro_dir g st)) = os_path_dirname pro_dir)"
proof (cases "realpath st pro_dir \<in> dirs st")
  case False
  with assms show ?thesis
    by (simp add: git_commit_and_push_no_repo)
next
  case True
  with assms show ?thesis
    by (auto simp: git_commit_and_push_in_repo Let_def)
qed

theorem git_commit_and_push_leaves_parent_witness:
  "os_path_isabs ''/srv/app/xxx'' \<and>
   realpath example_state ''/srv/app/xxx'' = ''/srv/app/xxx'' \<and>
   fst (git_commit_and_push ''huawei-core-10.0.0.1-config.txt'' ''/srv/app/xxx'' git_raising
          example_state) = None \<and>
   cwd (snd (git_commit_and_push ''huawei-core-10.0.0.1-config.txt'' ''/srv/app/xxx'' git_raising
          example_state)) = ''/srv/app''"
proof -
  have h: "os_path_isabs ''/srv/app/xxx''"
    by (simp add: os_path_isabs_def)
  have d: "os_path_dirname ''/srv/app/xxx'' = ''/srv/app''"
    by (simp add: os_path_dirname_def)
  show ?thesis
    using h git_commit_and_push_leaves_parent [OF h,
        of "''huawei-core-10.0.0.1-config.txt''" git_raising example_state]
    by (simp add: d example_state_def)
qed

text \<open>
  The clone reached through a symbolic link \<open>/srv/app/xxx\<close>: the call starts in the
  script directory \<open>/srv/app\<close>, the parent of \<open>pro_dir\<close>, and returns with the process
  in \<open>/data/repos\<close>, the parent of the link's target.
\<close>

theorem git_commit_and_push_symlink_counterexample:
  "cwd example_linked_state = ''/srv/app'' \<and>
   os_path_dirname ''/srv/app/xxx'' = ''/srv/app'' \<and>
   fst (git_commit_and_push ''huawei-core-10.0.0.1-config.txt'' ''/srv/app/xxx'' git_unchanged
          example_linked_state) = None \<and>
   cwd (snd (git_commit_and_push ''huawei-core-10.0.0.1-config.txt'' ''/srv/app/xxx'' git_unchanged
          example_linked_state)) = ''/data/repos''"
proof -
  have h: "os_path_isabs ''/srv/app/xxx''"
    by (simp add: os_path_isabs_def)
  have d: "os_path_dirname ''/srv/app/xxx'' = ''/srv/app''"
    "os_path_dirname ''/data/repos/xxx'' = ''/data/repos''"
    by (simp_all add: os_path_dirname_def)
  have r: "realpath example_linked_state ''/srv/app/xxx'' = ''/data/repos/xxx''"
    "dirs example_linked_state = {''/srv/app'', ''/data/repos'', ''/data/repos/xxx''}"
    "cwd example_linked_state = ''/srv/app''"
    by (simp_all add: example_linked_state_def)
  show ?thesis
    by (simp add: git_commit_and_push_in_repo [OF h] r d Let_def)
qed




section \<open>One attempt\<close>

subsection \<open>What each part of an attempt leaves untouched\<close>

lemma os_chdir_filter:
  assumes "\<And>p. \<not> P (Chdir p)"
  shows "filter P (trace (snd (os_chdir p st))) = filter P (trace st)"
  using assms by (simp add: os_chdir_def Let_def)

lemma git_steps_filter:
  assumes "\<And>c d. \<not> P (Run c d)" and "\<And>l. \<not> is_retry_log (Log l) \<Longrightarrow> \<not> P (Log l)"
  shows "filter P (trace (snd (git_steps f g st))) = filter P (trace st)"
  using assms by (simp add: git_steps_def Let_def split: sum.splits)

lemma after_steps_filter:
  assumes "\<And>c d. \<not> P (Run c d)" and "\<And>l. \<not> is_retry_log (Log l) \<Longrightarrow> \<not> P (Log l)"
  shows "filter P (trace (after_steps (git_steps f g st))) = filter P (trace st)"
  using git_steps_filter [of P f g st, OF assms] assms(2)
  by (cases "git_steps f g st") (simp add: after_steps_def split: option.splits)

lemma git_commit_and_push_filter:
  assumes "\<And>p. \<not> P (Chdir p)" and "\<And>c d. \<not> P (Run c d)" and "\<And>l. \<not> is_retry_log (Log l) \<Longrightarrow> \<not> P (Log l)"
  shows "filter P (trace (snd (git_commit_and_push f pd g st))) = filter P (trace st)"
proof (cases "os_chdir pd st")
  case (Pair r1 st1)
  have t1: "filter P (trace st1) = filter P (trace st)"
    using os_chdir_filter [of P pd st, OF assms(1)] Pair by simp
  show ?thesis
  proof (cases r1)
    case Some
    with Pair t1 show ?thesis
      by (simp add: git_commit_and_push_unfold)
  next
    case None
    have "filter P (trace (snd (os_chdir ''..'' (after_steps (git_steps f g st1))))) =
          filter P (trace st1)"
      by (simp add: os_chdir_filter [of P, OF assms(1)] after_steps_filter [of P, OF assms(2,3)])
    with Pair None t1 show ?thesis
      by (simp add: git_commit_and_push_unfold)
  qed
qed

lemma send_all_frame:
  "cwd (snd (send_all cs env st)) = cwd st"
  "dirs (snd (send_all cs env st)) = dirs st"
  "files (snd (send_all cs env st)) = files st"
  by (induction cs env st rule: send_all.induct; simp split: option.splits)+

lemma send_all_realpath:
  "realpath (snd (send_all cs env st)) = realpath st"
  by (induction cs env st rule: send_all.induct) (simp_all split: option.splits)

lemma send_all_filter:
  assumes "\<And>c p. \<not> P (SendCommandExpect c p)"
  shows "filter P (trace (snd (send_all cs env st))) = filter P (trace st)"
  using assms by (induction cs env st rule: send_all.induct) (simp_all split: option.splits)

lemma in_session_frame:
  "cwd (snd (in_session pf env st)) = cwd st"
  "dirs (snd (in_session pf env st)) = dirs st"
  "files (snd (in_session pf env st)) = files st"
  by (simp_all add: in_session_def Let_def send_all_frame split: sum.splits prod.splits option.splits,
      (metis send_all_frame snd_conv emit_simps)+)

lemma in_session_filter:
  assumes "\<not> P FindPrompt" and "\<And>c p. \<not> P (SendCommandExpect c p)" and "\<And>c. \<not> P (SendCommand c)"
  shows "filter P (trace (snd (in_session pf env st))) = filter P (trace st)"
proof (cases "find_prompt env")
  case (Inl e)
  with assms(1) show ?thesis by (simp add: in_session_def)
next
  case (Inr prompt)
  show ?thesis
  proof (cases "sublist ''Y/N'' prompt")
    case False
    with Inr assms(1,3) show ?thesis by (simp add: in_session_def)
  next
    case True
    obtain r st2 where s: "send_all (pagination_commands pf) env (emit FindPrompt st) = (r, st2)"
      by (cases "send_all (pagination_commands pf) env (emit FindPrompt st)")
    have "filter P (trace st2) = filter P (trace st)"
      using send_all_filter [of P "pagination_commands pf" env "emit FindPrompt st", OF assms(2)]
        s assms(1) by simp
    with Inr True s assms(3) show ?thesis
      by (simp add: in_session_def split: option.splits)
  qed
qed

lemma in_session_realpath:
  "realpath (snd (in_session pf env st)) = realpath st"
proof (cases "find_prompt env")
  case (Inl e)
  then show ?thesis by (simp add: in_session_def)
next
  case (Inr prompt)
  show ?thesis
  proof (cases "sublist ''Y/N'' prompt")
    case False
    with Inr show ?thesis by (simp add: in_session_def)
  next
    case True
    obtain r st2 where s: "send_all (pagination_commands pf) env (emit FindPrompt st) = (r, st2)"
      by (cases "send_all (pagination_commands pf) env (emit FindPrompt st)")
    have "realpath st2 = realpath st"
      using send_all_realpath [of "pagination_commands pf" env "emit FindPrompt st"] s by simp
    with Inr True s show ?thesis
      by (simp add: in_session_def split: option.splits)
  qed
qed

lemma session_frame:
  "cwd (snd (session d sd env st)) = cwd st"
  "dirs (snd (session d sd env st)) = dirs st"
  "files (snd (session d sd env st)) = files st"
  by (simp_all add: session_def Let_def split: option.splits prod.splits,
      (metis in_session_frame snd_conv emit_simps)+)

lemma session_filter:
  assumes "\<not> P FindPrompt" and "\<And>c p. \<not> P (SendCommandExpect c p)" and "\<And>c. \<not> P (SendCommand c)"
    and "\<not> P Disconnect"
  shows "filter P (trace (snd (session d sd env st))) =
         filter P (trace st) @
           filter P [Connect (platform d) (ip d) (username d) (password d) (session_log sd d)]"
proof (cases "connect_handler env")
  case None
  let ?st1 = "emit (Connect (platform d) (ip d) (username d) (password d) (session_log sd d)) st"
  obtain r st2 where s: "in_session (platform d) env ?st1 = (r, st2)"
    by (cases "in_session (platform d) env ?st1")
  have "filter P (trace st2) = filter P (trace ?st1)"
    using in_session_filter [of P "platform d" env ?st1, OF assms(1-3)] s by simp
  with None s assms(4) show ?thesis
    by (simp add: session_def)
next
  case (Some e)
  then show ?thesis by (simp add: session_def)
qed

lemma session_realpath:
  "realpath (snd (session d sd env st)) = realpath st"
proof (cases "connect_handler env")
  case None
  let ?st1 = "emit (Connect (platform d) (ip d) (username d) (password d) (session_log sd d)) st"
  obtain r st2 where s: "in_session (platform d) env ?st1 = (r, st2)"
    by (cases "in_session (platform d) env ?st1")
  have "realpath st2 = realpath ?st1"
    using in_session_realpath [of "platform d" env ?st1] s by simp
  with None s show ?thesis
    by (simp add: session_def)
next
  case (Some e)
  then show ?thesis by (simp add: session_def)
qed

lemma write_config_realpath:
  "realpath (snd (write_config path cfg env st)) = realpath st"
  by (simp add: write_config_def split: write_result.splits)

lemma write_config_frame:
  "cwd (snd (write_config path output env st)) = cwd st"
  "dirs (snd (write_config path output env st)) = dirs st"
  "trace (snd (write_config path output env st)) = trace st"
  by (simp_all add: write_config_def split: write_result.splits)

text \<open>An attempt, unfolded along the result of the session and of the write.\<close>

lemma attempt_session_raises:
  assumes "session d sd env st = (Inl e, st1)"
  shows "attempt d sd pd env st = (Some e, st1)"
  using assms by (simp add: attempt_def)

lemma attempt_session_returns:
  assumes "session d sd env st = (Inr output, st1)"
  shows "attempt d sd pd env st =
     (case write_config (os_path_join pd (config_filename (platform d) (role d) (ip d))) output env st1 of
        (Some e, st2) \<Rightarrow> (Some e, st2)
      | (None, st2) \<Rightarrow>
          git_commit_and_push (config_filename (platform d) (role d) (ip d)) pd (git env)
            (emit (Log (ConfigSaved (config_filename (platform d) (role d) (ip d)))) st2))"
  using assms by (simp add: attempt_def Let_def)

lemma attempt_filter:
  assumes "\<not> P FindPrompt" and "\<And>c p. \<not> P (SendCommandExpect c p)" and "\<And>c. \<not> P (SendCommand c)"
    and "\<not> P Disconnect"
    and "\<And>p. \<not> P (Chdir p)" and "\<And>c d. \<not> P (Run c d)" and "\<And>l. \<not> is_retry_log (Log l) \<Longrightarrow> \<not> P (Log l)"
  shows "filter P (trace (snd (attempt d sd pd env st))) =
         filter P (trace st) @
           filter P [Connect (platform d) (ip d) (username d) (password d) (session_log sd d)]"
proof -
  obtain r st1 where s: "session d sd env st = (r, st1)"
    by (cases "session d sd env st")
  have t1: "filter P (trace st1) = filter P (trace st) @
           filter P [Connect (platform d) (ip d) (username d) (password d) (session_log sd d)]"
    using session_filter [of P d sd env st, OF assms(1-4)] s by simp
  show ?thesis
  proof (cases r)
    case (Inl e)
    with s t1 show ?thesis by (simp add: attempt_session_raises)
  next
    case (Inr cfg)
    let ?f = "config_filename (platform d) (role d) (ip d)"
    obtain w st2 where w: "write_config (os_path_join pd ?f) cfg env st1 = (w, st2)"
      by (cases "write_config (os_path_join pd ?f) cfg env st1")
    have t2: "trace st2 = trace st1"
      using write_config_frame(3) [of "os_path_join pd ?f" cfg env st1] w by simp
    show ?thesis
    proof (cases w)
      case Some
      with s Inr w t1 t2 show ?thesis by (simp add: attempt_session_returns)
    next
      case None
      have "filter P (trace (snd (git_commit_and_push ?f pd (git env) (emit (Log (ConfigSaved ?f)) st2))))
            = filter P (trace (emit (Log (ConfigSaved ?f)) st2))"
        by (rule git_commit_and_push_filter [of P, OF assms(5-7)])
      with s Inr w None t1 t2 assms(7) show ?thesis by (simp add: attempt_session_returns)
    qed
  qed
qed


lemma attempt_files:
  assumes "fst (session d sd env st) = Inr cfg" and "write_file env = WriteOk"
  shows "files (snd (attempt d sd pd env st)) =
           (files st)(os_path_join pd (config_filename (platform d) (role d) (ip d)) \<mapsto> cfg)"
proof -
  obtain st1 where s: "session d sd env st = (Inr cfg, st1)"
    using assms(1) by (cases "session d sd env st") simp
  have "files st1 = files st"
    using session_frame(3) [of d sd env st] s by simp
  with s assms(2) show ?thesis
    by (simp add: attempt_session_returns write_config_def git_commit_and_push_files)
qed

lemma os_path_join_config_filename:
  assumes "pd \<noteq> []" and "last pd \<noteq> CHR ''/''" and "\<not> os_path_isabs pf"
  shows "os_path_join pd (config_filename pf rl addr) =
           pd @ ''/'' @ pf @ ''-'' @ rl @ ''-'' @ addr @ ''-config.txt''"
proof -
  have "\<not> os_path_isabs (config_filename pf rl addr)"
    using assms(3) by (cases pf) (simp_all add: os_path_isabs_def config_filename_def)
  with assms(1,2) show ?thesis
    by (simp add: os_path_join_def config_filename_def)
qed

text \<open>
  Claim C8. Two attempts on devices with the same platform, role and address, whatever
  their credentials, script directories, environments and states, write the fetched text
  to the same path, \<open>os.path.join(pro_dir, '{platform}-{role}-{address}-config.txt')\<close>,
  and after the attempt the file holds exactly the fetched text, whatever it held
  before. For a repository path without trailing slash and a platform that does not
  begin with a slash the path is \<open>pro_dir/{platform}-{role}-{address}-config.txt\<close>.
\<close>

theorem config_written_to_deterministic_path:
  assumes "platform d1 = platform d2" and "role d1 = role d2" and "ip d1 = ip d2"
    and "fst (session d1 sd1 env1 st1) = Inr cfg1" and "write_file env1 = WriteOk"
    and "fst (session d2 sd2 env2 st2) = Inr cfg2" and "write_file env2 = WriteOk"
  shows "files (snd (attempt d1 sd1 pro_dir env1 st1)) =
           (files st1)(os_path_join pro_dir (config_filename (platform d1) (role d1) (ip d1)) \<mapsto> cfg1) \<and>
         files (snd (attempt d2 sd2 pro_dir env2 st2)) =
           (files st2)(os_path_join pro_dir (config_filename (platform d1) (role d1) (ip d1)) \<mapsto> cfg2) \<and>
         (pro_dir \<noteq> [] \<and> last pro_dir \<noteq> CHR ''/'' \<and> \<not> os_path_isabs (platform d1) \<longrightarrow>
            os_path_join pro_dir (config_filename (platform d1) (role d1) (ip d1)) =
              pro_dir @ ''/'' @ platform d1 @ ''-'' @ role d1 @ ''-'' @ ip d1 @ ''-config.txt'')"
  using attempt_files [OF assms(4,5), of pro_dir] attempt_files [OF assms(6,7), of pro_dir]
    assms(1-3) os_path_join_config_filename [of pro_dir "platform d1" "role d1" "ip d1"]
  by simp

lemma session_example:
  "fst (session d sd (env_answering ''<HUAWEI>'' g) st) = Inr ''cfg''"
  by (simp add: session_def in_session_def env_answering_def sublist_code split: prod.splits)

theorem config_written_to_deterministic_path_witness:
  "files (snd (attempt example_device ''/srv/app'' ''/srv/app/xxx''
                 (env_answering ''<HUAWEI>'' git_unchanged)
                 (example_state\<lparr>files := [''/srv/app/xxx/huawei-core-10.0.0.1-config.txt'' \<mapsto> ''old'']\<rparr>)))
     ''/srv/app/xxx/huawei-core-10.0.0.1-config.txt'' = Some ''cfg'' \<and>
   files (snd (attempt (example_device\<lparr>username := ''backup'', password := ''other''\<rparr>) ''/opt/tool''
                 ''/srv/app/xxx'' (env_answering ''<HUAWEI>'' git_failing) example_state))
     ''/srv/app/xxx/huawei-core-10.0.0.1-config.txt'' = Some ''cfg''"
proof -
  let ?d2 = "example_device\<lparr>username := ''backup'', password := ''other''\<rparr>"
  let ?st1 = "example_state\<lparr>files := [''/srv/app/xxx/huawei-core-10.0.0.1-config.txt'' \<mapsto> ''old'']\<rparr>"
  have p: "platform example_device = platform ?d2" "role example_device = role ?d2"
    "ip example_device = ip ?d2"
    by simp_all
  have w: "write_file (env_answering ''<HUAWEI>'' git_unchanged) = WriteOk"
    "write_file (env_answering ''<HUAWEI>'' git_failing) = WriteOk"
    by (simp_all add: env_answering_def)
  have j: "os_path_join ''/srv/app/xxx'' (config_filename ''huawei'' ''core'' ''10.0.0.1'') =
           ''/srv/app/xxx/huawei-core-10.0.0.1-config.txt''"
    by (simp add: os_path_join_def os_path_isabs_def config_filename_def)
  show ?thesis
    using config_written_to_deterministic_path [where ?d1.0 = example_device and ?d2.0 = ?d2
        and ?sd1.0 = "''/srv/app''" and ?st1.0 = ?st1 and ?sd2.0 = "''/opt/tool''"
        and ?st2.0 = example_state and pro_dir = "''/srv/app/xxx''"
        and ?env1.0 = "env_answering ''<HUAWEI>'' git_unchanged"
        and ?env2.0 = "env_answering ''<HUAWEI>'' git_failing",
        OF p session_example w(1) session_example w(2)]
    by (simp add: example_device_def j)
qed

subsection \<open>The commands of a session\<close>

lemma send_all_trace:
  "trace (snd (send_all cs env st)) = trace st @ map expect_event (issued cs env)"
  by (induction cs env st rule: send_all.induct) (simp_all split: option.splits)



lemma filter_is_command_expects [simp]:
  "filter is_command (map expect_event ys) = map expect_event ys"
  by (induction ys) auto

lemma fetch_notin_expects [simp]:
  "SendCommand x \<notin> expect_event ` S"
  by auto








subsection \<open>The retry loop\<close>

lemma attempt_dirs: "dirs (snd (attempt d sd pd env st)) = dirs st"
proof -
  obtain r st1 where s: "session d sd env st = (r, st1)"
    by (cases "session d sd env st")
  have d1: "dirs st1 = dirs st"
    using session_frame(2) [of d sd env st] s by simp
  show ?thesis
  proof (cases r)
    case (Inl e)
    with s d1 show ?thesis by (simp add: attempt_session_raises)
  next
    case (Inr cfg)
    let ?f = "config_filename (platform d) (role d) (ip d)"
    obtain w st2 where w: "write_config (os_path_join pd ?f) cfg env st1 = (w, st2)"
      by (cases "write_config (os_path_join pd ?f) cfg env st1")
    have d2: "dirs st2 = dirs st"
      using write_config_frame(2) [of "os_path_join pd ?f" cfg env st1] w d1 by simp
    show ?thesis
    proof (cases w)
      case Some
      with s Inr w d2 show ?thesis by (simp add: attempt_session_returns)
    next
      case None
      obtain g st3 where g: "git_commit_and_push ?f pd (git env) (emit (Log (ConfigSaved ?f)) st2) = (g, st3)"
        by (cases "git_commit_and_push ?f pd (git env) (emit (Log (ConfigSaved ?f)) st2)")
      have "dirs st3 = dirs st2"
        using git_commit_and_push_dirs [of ?f pd "git env" "emit (Log (ConfigSaved ?f)) st2"] g by simp
      with s Inr w None d2 g show ?thesis by (simp add: attempt_session_returns)
    qed
  qed
qed

lemma attempt_realpath: "realpath (snd (attempt d sd pd env st)) = realpath st"
proof -
  obtain r st1 where s: "session d sd env st = (r, st1)"
    by (cases "session d sd env st")
  have d1: "realpath st1 = realpath st"
    using session_realpath [of d sd env st] s by simp
  show ?thesis
  proof (cases r)
    case (Inl e)
    with s d1 show ?thesis by (simp add: attempt_session_raises)
  next
    case (Inr cfg)
    let ?f = "config_filename (platform d) (role d) (ip d)"
    obtain w st2 where w: "write_config (os_path_join pd ?f) cfg env st1 = (w, st2)"
      by (cases "write_config (os_path_join pd ?f) cfg env st1")
    have d2: "realpath st2 = realpath st"
      using write_config_realpath [of "os_path_join pd ?f" cfg env st1] w d1 by simp
    show ?thesis
    proof (cases w)
      case Some
      with s Inr w d2 show ?thesis by (simp add: attempt_session_returns)
    next
      case None
      obtain g st3 where g: "git_commit_and_push ?f pd (git env) (emit (Log (ConfigSaved ?f)) st2) = (g, st3)"
        by (cases "git_commit_and_push ?f pd (git env) (emit (Log (ConfigSaved ?f)) st2)")
      have "realpath st3 = realpath st2"
        using git_commit_and_push_frame(3) [of ?f pd "git env" "emit (Log (ConfigSaved ?f)) st2"] g by simp
      with s Inr w None d2 g show ?thesis by (simp add: attempt_session_returns)
    qed
  qed
qed

lemma attempt_connects:
  "filter is_connect (trace (snd (attempt d sd pd env st))) =
     filter is_connect (trace st) @
       [Connect (platform d) (ip d) (username d) (password d) (session_log sd d)]"
  using attempt_filter [of is_connect d sd pd env st] by simp

lemma attempt_retry_log:
  "filter is_retry_log (trace (snd (attempt d sd pd env st))) = filter is_retry_log (trace st)"
  using attempt_filter [of is_retry_log d sd pd env st] by simp

text \<open>A successful attempt ends the loop.\<close>

lemma retry_loop_break:
  assumes "fst (attempt d sd pd (envs k) st) = None"
  shows "retry_loop (k # rest) m d sd pd envs st = snd (attempt d sd pd (envs k) st)"
  using assms by (cases "attempt d sd pd (envs k) st") simp

text \<open>One failed attempt: the handler logs the exception and the count, and the loop goes on.\<close>

lemma retry_loop_raise:
  assumes "fst (attempt d sd pd (envs k) st) = Some e"
  shows "retry_loop (k # rest) m d sd pd envs st =
           retry_loop rest m d sd pd envs
             (emit (Log (if k < m - 1 then Retrying (ip d) (k + 1) m else MaxRetriesReached (ip d)))
                (emit (Log (ErrorBackingUp (ip d) e)) (snd (attempt d sd pd (envs k) st))))"
  using assms by (cases "attempt d sd pd (envs k) st") simp

lemma retry_loop_dirs:
  "dirs (retry_loop ks m d sd pd envs st) = dirs st"
proof (induction ks arbitrary: st)
  case Nil
  then show ?case by simp
next
  case (Cons k ks)
  show ?case
  proof (cases "fst (attempt d sd pd (envs k) st)")
    case None
    then show ?thesis
      by (simp only: retry_loop_break attempt_dirs)
  next
    case (Some e)
    then show ?thesis
      by (simp only: retry_loop_raise Cons.IH emit_simps attempt_dirs)
  qed
qed

lemma retry_loop_realpath:
  "realpath (retry_loop ks m d sd pd envs st) = realpath st"
proof (induction ks arbitrary: st)
  case Nil
  then show ?case by simp
next
  case (Cons k ks)
  show ?case
  proof (cases "fst (attempt d sd pd (envs k) st)")
    case None
    then show ?thesis
      by (simp only: retry_loop_break attempt_realpath)
  next
    case (Some e)
    then show ?thesis
      by (simp only: retry_loop_raise Cons.IH emit_simps attempt_realpath)
  qed
qed

text \<open>While every attempt raises, the loop runs through the whole list.\<close>

lemma retry_loop_all_raise_log:
  assumes "\<And>k s. k \<in> set ks \<Longrightarrow> dirs s = dirs st \<Longrightarrow> realpath s = realpath st \<Longrightarrow> fst (attempt d sd pd (envs k) s) = Some (e k)"
  shows "filter is_retry_log (trace (retry_loop ks m d sd pd envs st)) =
           filter is_retry_log (trace st) @ concat (map (retry_records d m e) ks)"
  using assms
proof (induction ks arbitrary: st)
  case Nil
  then show ?case by simp
next
  case (Cons k ks)
  let ?st1 = "emit (Log (if k < m - 1 then Retrying (ip d) (k + 1) m else MaxRetriesReached (ip d)))
                (emit (Log (ErrorBackingUp (ip d) (e k))) (snd (attempt d sd pd (envs k) st)))"
  have k: "fst (attempt d sd pd (envs k) st) = Some (e k)"
    using Cons.prems [of k st] by simp
  have d: "dirs ?st1 = dirs st" "realpath ?st1 = realpath st"
    by (simp_all add: attempt_dirs attempt_realpath)
  have "filter is_retry_log (trace (retry_loop ks m d sd pd envs ?st1)) =
        filter is_retry_log (trace ?st1) @ concat (map (retry_records d m e) ks)"
  proof (rule Cons.IH)
    fix j and s :: state
    assume "j \<in> set ks" "dirs s = dirs ?st1" "realpath s = realpath ?st1"
    with d show "fst (attempt d sd pd (envs j) s) = Some (e j)"
      using Cons.prems [of j s] by simp
  qed
  moreover have "retry_records d m e k =
      [Log (ErrorBackingUp (ip d) (e k)),
       Log (if k < m - 1 then Retrying (ip d) (k + 1) m else MaxRetriesReached (ip d))]"
    by (simp add: retry_records_def)
  moreover have "is_retry_log (Log (if k < m - 1 then Retrying (ip d) (k + 1) m
                                    else MaxRetriesReached (ip d)))"
    by simp
  ultimately show ?case
    by (simp del: retry_loop.simps
          add: retry_loop_raise [where envs = envs and k = k, OF k] attempt_retry_log)
qed

lemma retry_loop_all_raise_connects:
  assumes "\<And>k s. k \<in> set ks \<Longrightarrow> dirs s = dirs st \<Longrightarrow> realpath s = realpath st \<Longrightarrow> fst (attempt d sd pd (envs k) s) \<noteq> None"
  shows "length (filter is_connect (trace (retry_loop ks m d sd pd envs st))) =
           length (filter is_connect (trace st)) + length ks"
  using assms
proof (induction ks arbitrary: st)
  case Nil
  then show ?case by simp
next
  case (Cons k ks)
  obtain e where k: "fst (attempt d sd pd (envs k) st) = Some e"
    using Cons.prems [of k st] by auto
  let ?st1 = "emit (Log (if k < m - 1 then Retrying (ip d) (k + 1) m else MaxRetriesReached (ip d)))
                (emit (Log (ErrorBackingUp (ip d) e)) (snd (attempt d sd pd (envs k) st)))"
  have d: "dirs ?st1 = dirs st" "realpath ?st1 = realpath st"
    by (simp_all add: attempt_dirs attempt_realpath)
  have "length (filter is_connect (trace (retry_loop ks m d sd pd envs ?st1))) =
        length (filter is_connect (trace ?st1)) + length ks"
  proof (rule Cons.IH)
    fix j and s :: state
    assume "j \<in> set ks" "dirs s = dirs ?st1" "realpath s = realpath ?st1"
    with d show "fst (attempt d sd pd (envs j) s) \<noteq> None"
      using Cons.prems [of j s] by simp
  qed
  then show ?case
    by (simp del: retry_loop.simps
          add: retry_loop_raise [where envs = envs and k = k, OF k] attempt_connects)
qed

text \<open>After a failed last attempt the last record is the one of the handler.\<close>

lemma retry_loop_all_raise_last:
  assumes "\<And>k s. k \<in> set ks \<Longrightarrow> dirs s = dirs st \<Longrightarrow> realpath s = realpath st \<Longrightarrow> fst (attempt d sd pd (envs k) s) \<noteq> None"
    and "ks \<noteq> []"
  shows "last (trace (retry_loop ks m d sd pd envs st)) =
           Log (if last ks < m - 1 then Retrying (ip d) (last ks + 1) m else MaxRetriesReached (ip d))"
  using assms
proof (induction ks arbitrary: st)
  case Nil
  then show ?case by simp
next
  case (Cons k ks)
  obtain e where k: "fst (attempt d sd pd (envs k) st) = Some e"
    using Cons.prems(1) [of k st] by auto
  let ?st1 = "emit (Log (if k < m - 1 then Retrying (ip d) (k + 1) m else MaxRetriesReached (ip d)))
                (emit (Log (ErrorBackingUp (ip d) e)) (snd (attempt d sd pd (envs k) st)))"
  have d: "dirs ?st1 = dirs st" "realpath ?st1 = realpath st"
    by (simp_all add: attempt_dirs attempt_realpath)
  show ?case
  proof (cases "ks = []")
    case True
    then show ?thesis
      by (simp del: retry_loop.simps
            add: retry_loop_raise [where envs = envs and k = k, OF k] retry_loop.simps(1))
  next
    case False
    have "last (trace (retry_loop ks m d sd pd envs ?st1)) =
           Log (if last ks < m - 1 then Retrying (ip d) (last ks + 1) m else MaxRetriesReached (ip d))"
    proof (rule Cons.IH)
      fix j and s :: state
      assume "j \<in> set ks" "dirs s = dirs ?st1" "realpath s = realpath ?st1"
      with d show "fst (attempt d sd pd (envs j) s) \<noteq> None"
        using Cons.prems(1) [of j s] by simp
    qed (rule False)
    with False show ?thesis
      by (simp del: retry_loop.simps add: retry_loop_raise [where envs = envs and k = k, OF k])
  qed
qed

lemma retry_loop_append:
  assumes "\<And>k s. k \<in> set ks \<Longrightarrow> dirs s = dirs st \<Longrightarrow> realpath s = realpath st \<Longrightarrow> fst (attempt d sd pd (envs k) s) \<noteq> None"
  shows "retry_loop (ks @ rest) m d sd pd envs st =
           retry_loop rest m d sd pd envs (retry_loop ks m d sd pd envs st)"
  using assms
proof (induction ks arbitrary: st)
  case Nil
  then show ?case by simp
next
  case (Cons k ks)
  obtain e where k: "fst (attempt d sd pd (envs k) st) = Some e"
    using Cons.prems [of k st] by auto
  let ?st1 = "emit (Log (if k < m - 1 then Retrying (ip d) (k + 1) m else MaxRetriesReached (ip d)))
                (emit (Log (ErrorBackingUp (ip d) e)) (snd (attempt d sd pd (envs k) st)))"
  have d: "dirs ?st1 = dirs st" "realpath ?st1 = realpath st"
    by (simp_all add: attempt_dirs attempt_realpath)
  have "retry_loop (ks @ rest) m d sd pd envs ?st1 =
        retry_loop rest m d sd pd envs (retry_loop ks m d sd pd envs ?st1)"
  proof (rule Cons.IH)
    fix j and s :: state
    assume "j \<in> set ks" "dirs s = dirs ?st1" "realpath s = realpath ?st1"
    with d show "fst (attempt d sd pd (envs j) s) \<noteq> None"
      using Cons.prems [of j s] by simp
  qed
  then show ?case
    using retry_loop_raise [where envs = envs and k = k, OF k, of "ks @ rest" m]
      retry_loop_raise [where envs = envs and k = k, OF k, of ks m]
    by (simp del: retry_loop.simps)
qed

text \<open>
  Claim C2. When every one of the five attempts on a device raises (in whatever state of
  the process it is made), \<open>backup_config\<close> opens exactly five connections, and the last
  thing it does is to log "Max retries reached" for the device: it then returns, and the
  task is over.
\<close>

theorem backup_config_retry_bound:
  assumes "\<And>k s. k < max_retries \<Longrightarrow> dirs s = dirs st \<Longrightarrow>
             fst (attempt d script_dir pro_dir (envs k) s) \<noteq> None"
  shows "length (filter is_connect (trace (backup_config d script_dir pro_dir envs st))) =
           length (filter is_connect (trace st)) + 5 \<and>
         last (trace (backup_config d script_dir pro_dir envs st)) = Log (MaxRetriesReached (ip d))"
proof -
  have a: "fst (attempt d script_dir pro_dir (envs k) s) \<noteq> None"
    if "k \<in> set [0..<max_retries]" "dirs s = dirs st" "realpath s = realpath st" for k s
    using that(1,2) assms [of k s] by simp
  have "length (filter is_connect (trace (backup_config d script_dir pro_dir envs st))) =
           length (filter is_connect (trace st)) + length [0..<max_retries]"
    unfolding backup_config_def using a by (rule retry_loop_all_raise_connects)
  moreover
  have "last (trace (backup_config d script_dir pro_dir envs st)) =
          Log (if last [0..<max_retries] < max_retries - 1
               then Retrying (ip d) (last [0..<max_retries] + 1) max_retries
               else MaxRetriesReached (ip d))"
    unfolding backup_config_def using a by (rule retry_loop_all_raise_last) (simp_all add: max_retries_def)
  moreover have "last [0..<max_retries] = 4"
    by (simp add: max_retries_def upt_rec [of 0] upt_rec [of 1] upt_rec [of 2] upt_rec [of 3]
          upt_rec [of 4])
  ultimately show ?thesis
    by (simp add: max_retries_def)
qed

theorem backup_config_retry_bound_witness:
  "length (filter is_connect (trace (backup_config example_device ''/srv/app'' ''/srv/app/xxx''
      (\<lambda>k. env_unreachable) example_state))) = 5 \<and>
   last (trace (backup_config example_device ''/srv/app'' ''/srv/app/xxx''
      (\<lambda>k. env_unreachable) example_state)) = Log (MaxRetriesReached ''10.0.0.1'')"
proof -
  have h: "fst (attempt example_device ''/srv/app'' ''/srv/app/xxx'' env_unreachable s) \<noteq> None" for s
    by (simp add: attempt_def session_def env_unreachable_def)
  show ?thesis
    using backup_config_retry_bound [of example_state example_device "''/srv/app''" "''/srv/app/xxx''"
        "\<lambda>k. env_unreachable", OF h]
    by (simp add: example_state_def example_device_def)
qed

section \<open>The coroutines do what the functions do\<close>

lemma coro_induct [case_names Return Sync Acquire Release Suspend]:
  assumes "\<And>x. P (Return x)"
    and "\<And>f. (\<And>st. P (snd (f st))) \<Longrightarrow> P (Sync f)"
    and "\<And>c. P c \<Longrightarrow> P (Acquire c)"
    and "\<And>c. P c \<Longrightarrow> P (Release c)"
    and "\<And>c. P c \<Longrightarrow> P (Suspend c)"
  shows "P c"
proof (induction c)
  case (Sync f)
  show ?case
  proof (rule assms(2))
    fix st
    show "P (snd (f st))"
      by (rule Sync.IH [of "f st"]) (simp_all add: snds.intros)
  qed
qed (simp_all add: assms)

lemma sync_Sync [simp]: "sync (Sync f) st = sync (snd (f st)) (fst (f st))"
  by (cases "f st") simp

lemma sync_call [simp]: "sync (call f) st = f st"
  by (cases "f st") (simp add: call_def)

lemma sync_act [simp]: "sync (act f) st = ((), f st)"
  by (simp add: act_def)

lemma sync_bind: "sync (bind c k) st = (case sync c st of (r, st') \<Rightarrow> sync (k r) st')"
proof (induction c arbitrary: st rule: coro_induct)
  case (Sync f)
  show ?case
    using Sync [of st "fst (f st)"] by (cases "f st") simp
qed simp_all

lemma sync_git_steps_co: "sync (git_steps_co f g) st = git_steps f g st"
  by (simp add: git_steps_co_def git_steps_def sync_bind Let_def split: sum.splits)

lemma sync_git_commit_and_push_co:
  "sync (git_commit_and_push_co f pd g) st = git_commit_and_push f pd g st"
  by (simp add: git_commit_and_push_co_def git_commit_and_push_def sync_bind sync_git_steps_co
        split: prod.splits option.splits)

lemma sync_session_co: "sync (session_co d sd env) st = session d sd env st"
  by (simp add: session_co_def session_def sync_bind Let_def split: option.splits prod.splits)

lemma sync_attempt_co: "sync (attempt_co d sd pd env) st = attempt d sd pd env st"
  by (simp add: attempt_co_def attempt_def sync_bind sync_session_co sync_git_commit_and_push_co
        Let_def split: prod.splits sum.splits option.splits)

lemma sync_retry_loop_co:
  "sync (retry_loop_co ks m d sd pd envs) st = ((), retry_loop ks m d sd pd envs st)"
  by (induction ks arbitrary: st)
    (simp_all add: sync_bind sync_attempt_co split: prod.splits option.splits)

lemma sync_backup_config_co:
  "sync (backup_config_co d sd pd envs) st = ((), backup_config d sd pd envs st)"
  by (simp add: backup_config_co_def backup_config_def sync_bind sync_retry_loop_co)

section \<open>The block under the semaphore has no suspension point\<close>

lemma steady_refl [simp]: "steady Q st st"
  by (simp add: steady_def)

lemma steady_emit [simp]: "Q e \<Longrightarrow> steady Q st (emit e st)"
  by (simp add: steady_def)

lemma steady_run: "Q (Run cmd (cwd st)) \<Longrightarrow> steady Q st (run cmd st)"
  by (simp add: steady_def)

lemma steady_os_chdir: "Q (Chdir p) \<Longrightarrow> steady Q st (snd (os_chdir p st))"
  by (simp add: steady_def os_chdir_def Let_def)

lemma steady_write_config: "steady Q st (snd (write_config path cfg env st))"
  by (simp add: steady_def write_config_def split: write_result.splits)

lemma quiet_bind:
  assumes "quiet Q c" and "\<And>x. quiet Q (k x)"
  shows "quiet Q (bind c k)"
  using assms(1)
proof induction
  case (Return x)
  show ?case by (simp add: assms(2))
next
  case (Sync f)
  show ?case
    unfolding bind.simps
  proof (rule quiet.Sync)
    fix st
    show "steady Q st (fst (map_prod id (\<lambda>c. bind c k) (f st)))"
      using Sync.hyps(1) [of st] by (cases "f st") simp
    show "quiet Q (snd (map_prod id (\<lambda>c. bind c k) (f st)))"
      using Sync.IH [of st] by (cases "f st") simp
  qed
qed

lemma quiet_act:
  assumes "\<And>st. steady Q st (f st)"
  shows "quiet Q (act f)"
  unfolding act_def by (rule quiet.Sync) (simp_all add: assms quiet.Return)

lemma quiet_call:
  assumes "\<And>st. steady Q st (snd (f st))"
  shows "quiet Q (call f)"
  unfolding call_def
proof (rule quiet.Sync)
  fix st
  show "steady Q st (fst (case f st of (r, st') \<Rightarrow> (st', Return r)))"
    using assms [of st] by (cases "f st") simp
  show "quiet Q (snd (case f st of (r, st') \<Rightarrow> (st', Return r)))"
    by (cases "f st") (simp add: quiet.Return)
qed

lemma quiet_finishing:
  assumes "quiet Q c"
  shows "finishing Q (bind c (\<lambda>_. Release (Return ())))"
  using assms
proof induction
  case (Return x)
  show ?case by (simp add: finishing.Release)
next
  case (Sync f)
  show ?case
    unfolding bind.simps
  proof (rule finishing.Sync)
    fix st
    show "steady Q st (fst (map_prod id (\<lambda>c. bind c (\<lambda>_. Release (Return ()))) (f st)))"
      using Sync.hyps(1) [of st] by (cases "f st") simp
    show "finishing Q (snd (map_prod id (\<lambda>c. bind c (\<lambda>_. Release (Return ()))) (f st)))"
      using Sync.IH [of st] by (cases "f st") simp
  qed
qed

lemma steady_trans: "steady Q a b \<Longrightarrow> steady Q b c \<Longrightarrow> steady Q a c"
  by (auto simp: steady_def)

lemma steady_send_all:
  assumes "\<And>c p. Q (SendCommandExpect c p)"
  shows "steady Q st (snd (send_all cs env st))"
proof -
  have "list_all Q (map expect_event xs)" for xs :: "(string \<times> string) list"
    by (induction xs) (auto simp: assms)
  then show ?thesis
    by (simp add: steady_def send_all_trace send_all_frame send_all_realpath)
qed

lemma steady_in_session:
  assumes "Q FindPrompt" and "\<And>c p. Q (SendCommandExpect c p)" and "\<And>c. Q (SendCommand c)"
  shows "steady Q st (snd (in_session pf env st))"
proof (cases "find_prompt env")
  case (Inl e)
  with assms(1) show ?thesis by (simp add: in_session_def)
next
  case (Inr prompt)
  show ?thesis
  proof (cases "sublist ''Y/N'' prompt")
    case False
    have "steady Q st (emit FindPrompt st)" by (simp add: assms(1))
    moreover have "steady Q (emit FindPrompt st) (emit (SendCommand (fetch_command pf)) (emit FindPrompt st))"
      by (simp add: assms(3))
    ultimately show ?thesis
      using Inr False by (simp add: in_session_def steady_trans)
  next
    case True
    obtain r st2 where s: "send_all (pagination_commands pf) env (emit FindPrompt st) = (r, st2)"
      by (cases "send_all (pagination_commands pf) env (emit FindPrompt st)")
    have a: "steady Q st (emit FindPrompt st)" by (simp add: assms(1))
    have "steady Q (emit FindPrompt st) st2"
      using steady_send_all [of Q "emit FindPrompt st" "pagination_commands pf" env, OF assms(2)] s
      by simp
    with a have b: "steady Q st st2" by (rule steady_trans)
    have "steady Q st2 (emit (SendCommand (fetch_command pf)) st2)" by (simp add: assms(3))
    with b have "steady Q st (emit (SendCommand (fetch_command pf)) st2)" by (rule steady_trans)
    with b Inr True s show ?thesis
      by (simp add: in_session_def split: option.splits)
  qed
qed

lemma quiet_git_steps_co:
  assumes "\<And>e. \<not> is_run e \<Longrightarrow> Q e"
    and "\<And>dir. Q (Run (add_command f) dir)"
    and "\<And>dir. Q (Run (commit_command f (now g)) dir)"
    and "\<And>dir. Q (Run push_command dir)"
  shows "quiet Q (git_steps_co f g)"
  unfolding git_steps_co_def
  by (auto intro!: quiet_bind quiet_act quiet.Return steady_run steady_emit assms
      split: sum.splits)

lemma quiet_git_commit_and_push_co:
  assumes "\<And>e. \<not> is_run e \<Longrightarrow> Q e"
    and "\<And>dir. Q (Run (add_command f) dir)"
    and "\<And>dir. Q (Run (commit_command f (now g)) dir)"
    and "\<And>dir. Q (Run push_command dir)"
  shows "quiet Q (git_commit_and_push_co f pd g)"
  unfolding git_commit_and_push_co_def
  by (auto intro!: quiet_bind quiet_act quiet_call quiet.Return steady_os_chdir steady_emit
        quiet_git_steps_co assms split: option.splits)

lemma quiet_session_co:
  assumes "\<And>e. \<not> is_run e \<Longrightarrow> Q e"
  shows "quiet Q (session_co d sd env)"
  unfolding session_co_def
  by (auto intro!: quiet_bind quiet_act quiet_call quiet.Return steady_in_session steady_emit
        assms split: option.splits)

lemma quiet_attempt_co:
  assumes "\<And>e. \<not> is_run e \<Longrightarrow> Q e"
    and "\<And>dir. Q (Run (add_command (config_filename (platform d) (role d) (ip d))) dir)"
    and "\<And>dir. Q (Run (commit_command (config_filename (platform d) (role d) (ip d)) (now (git env))) dir)"
    and "\<And>dir. Q (Run push_command dir)"
  shows "quiet Q (attempt_co d sd pd env)"
  unfolding attempt_co_def Let_def
  by (auto intro!: quiet_bind quiet_act quiet_call quiet.Return steady_write_config steady_emit
        quiet_session_co quiet_git_commit_and_push_co assms split: option.splits sum.splits)

lemma own_event_not_run: "\<not> is_run e \<Longrightarrow> own_event d envs e"
  by (cases e) (simp_all add: own_event_def)

lemma quiet_retry_loop_co:
  assumes "set ks \<subseteq> {0..<max_retries}"
  shows "quiet (own_event d envs) (retry_loop_co ks m d sd pd envs)"
  using assms
proof (induction ks)
  case Nil
  show ?case by (simp add: quiet.Return)
next
  case (Cons k ks)
  have k: "k < max_retries" using Cons.prems by simp
  have a: "quiet (own_event d envs) (attempt_co d sd pd (envs k))"
  proof (rule quiet_attempt_co)
    fix e :: event
    assume "\<not> is_run e"
    then show "own_event d envs e" by (rule own_event_not_run)
  qed (use k in \<open>auto simp: own_event_def git_commands_def Let_def\<close>)
  have r: "quiet (own_event d envs) (retry_loop_co ks m d sd pd envs)"
    using Cons by simp
  show ?case
    unfolding retry_loop_co.simps
    by (auto intro!: quiet_bind quiet_act quiet.Return steady_emit a r own_event_not_run
        split: option.splits)
qed

lemma finishing_backup_config_co:
  "\<exists>b. backup_config_co d sd pd envs = Acquire b \<and> finishing (own_event d envs) b"
  unfolding backup_config_co_def
  by (auto intro!: quiet_finishing quiet_retry_loop_co)

section \<open>Only one task at a time is inside the block\<close>

lemma loop_inv_initial:
  assumes "\<And>j. j < length cs0 \<Longrightarrow> \<exists>b. cs0 ! j = Acquire b \<and> finishing (Q j) b"
  shows "loop_inv K cs0 Q (initial K cs0 w)"
  using assms by (simp add: loop_inv_def initial_def)

lemma step_cases [consumes 2, case_names resume acquire finish sync release]:
  assumes inv: "loop_inv K cs0 Q s"
    and st: "step s s'"
    and resume: "\<And>i. running s = None \<Longrightarrow> i < length cs0 \<Longrightarrow> coros s ! i = cs0 ! i \<Longrightarrow>
        semaphore s = K \<Longrightarrow> 0 < K \<Longrightarrow> s' = s\<lparr>running := Some i\<rparr> \<Longrightarrow> P"
    and acquire: "\<And>i b. running s = Some i \<Longrightarrow> i < length cs0 \<Longrightarrow> coros s ! i = cs0 ! i \<Longrightarrow>
        cs0 ! i = Acquire b \<Longrightarrow> finishing (Q i) b \<Longrightarrow> semaphore s = K \<Longrightarrow> 0 < K \<Longrightarrow>
        s' = s\<lparr>semaphore := K - 1, coros := (coros s)[i := b]\<rparr> \<Longrightarrow> P"
    and finish: "\<And>i. running s = Some i \<Longrightarrow> i < length cs0 \<Longrightarrow> coros s ! i = Return () \<Longrightarrow>
        semaphore s = K \<Longrightarrow> s' = s\<lparr>running := None\<rparr> \<Longrightarrow> P"
    and sync: "\<And>i f. running s = Some i \<Longrightarrow> i < length cs0 \<Longrightarrow> coros s ! i = Sync f \<Longrightarrow>
        Suc (semaphore s) = K \<Longrightarrow> steady (Q i) (world s) (fst (f (world s))) \<Longrightarrow>
        finishing (Q i) (snd (f (world s))) \<Longrightarrow>
        s' = s\<lparr>coros := (coros s)[i := snd (f (world s))], world := fst (f (world s)),
               history := history s @ map (Pair i) (new_events (world s) (fst (f (world s))))\<rparr> \<Longrightarrow> P"
    and release: "\<And>i. running s = Some i \<Longrightarrow> i < length cs0 \<Longrightarrow>
        coros s ! i = Release (Return ()) \<Longrightarrow> Suc (semaphore s) = K \<Longrightarrow>
        s' = s\<lparr>semaphore := K, coros := (coros s)[i := Return ()]\<rparr> \<Longrightarrow> P"
  shows P
proof -
  have blocks: "\<exists>b. cs0 ! j = Acquire b \<and> finishing (Q j) b" if "j < length cs0" for j
    using inv that by (simp add: loop_inv_def)
  from st show P
  proof cases
  case (resume i)
  from inv resume(2) have len: "length (coros s) = length cs0"
    and sem: "semaphore s = K"
    by (simp_all add: loop_inv_def)
  from resume(3) len have i: "i < length cs0" by simp
  from inv resume(2) i have idle: "coros s ! i = cs0 ! i \<or> coros s ! i = Return ()"
    by (simp add: loop_inv_def)
  from resume(4) have nr: "coros s ! i \<noteq> Return ()" by (auto simp: ready_def)
  with idle have c: "coros s ! i = cs0 ! i" by simp
  obtain b where b: "cs0 ! i = Acquire b" using blocks [OF i] by blast
  from resume(4) c b sem have "0 < K" by (simp add: ready_def)
  from resume(2) i c sem this resume(1) show P by (rule assms(3))
next
  case (advance i)
  from inv advance(2) have len: "length (coros s) = length cs0" and i: "i < length cs0"
    and K: "0 < K"
    and ph: "(coros s ! i = cs0 ! i \<or> coros s ! i = Return ()) \<and> semaphore s = K \<or>
            finishing (Q i) (coros s ! i) \<and> Suc (semaphore s) = K"
    by (simp_all add: loop_inv_def)
  obtain b where b: "cs0 ! i = Acquire b" "finishing (Q i) b" using blocks [OF i] by blast
  from ph consider
      (init) "coros s ! i = cs0 ! i" "semaphore s = K"
    | (ret) "coros s ! i = Return ()" "semaphore s = K"
    | (fin) "finishing (Q i) (coros s ! i)" "Suc (semaphore s) = K"
    by blast
  then show P
  proof cases
    case init
    from advance(1) init b K have "s' = s\<lparr>semaphore := K - 1, coros := (coros s)[i := b]\<rparr>"
      by (simp add: exec_def)
    with advance(2) i init(1) b init(2) K show P by (rule acquire)
  next
    case ret
    from advance(1) ret have "s' = s\<lparr>running := None\<rparr>" by (simp add: exec_def)
    with advance(2) i ret show P by (rule finish)
  next
    case fin
    from fin(1) show P
    proof cases
      case Release
      with advance(1) fin(2) have "s' = s\<lparr>semaphore := K, coros := (coros s)[i := Return ()]\<rparr>"
        by (simp add: exec_def)
      with advance(2) i Release fin(2) show P by (rule release)
    next
      case (Sync f)
      from advance(1) Sync(1)
      have "s' = s\<lparr>coros := (coros s)[i := snd (f (world s))], world := fst (f (world s)),
               history := history s @ map (Pair i) (new_events (world s) (fst (f (world s))))\<rparr>"
        by (cases "f (world s)") (simp add: exec_def)
      with advance(2) i Sync(1) fin(2) Sync(2) [of "world s"] Sync(3) [of "world s"]
      show P by (rule sync)
    qed
  qed
qed
qed

lemma loop_inv_step:
  assumes inv: "loop_inv K cs0 Q s"
    and st: "step s s'"
  shows "loop_inv K cs0 Q s'"
  using inv st
proof (cases rule: step_cases)
  case (resume i)
  with inv show ?thesis by (auto simp: loop_inv_def)
next
  case (acquire i b)
  with inv show ?thesis by (auto simp: loop_inv_def nth_list_update)
next
  case (finish i)
  with inv show ?thesis by (auto simp: loop_inv_def)
next
  case (sync i f)
  with inv show ?thesis by (auto simp: loop_inv_def nth_list_update)
next
  case (release i)
  with inv show ?thesis by (auto simp: loop_inv_def nth_list_update)
qed

lemma main_tasks_blocks:
  assumes "j < length (main_tasks devs sd pd envs)"
  shows "\<exists>b. main_tasks devs sd pd envs ! j = Acquire b \<and> finishing (own_event (devs ! j) (envs j)) b"
  using assms finishing_backup_config_co [of "devs ! j" sd pd "envs j"]
  by (simp add: main_tasks_def)

lemma length_main_tasks [simp]: "length (main_tasks devs sd pd envs) = length devs"
  by (simp add: main_tasks_def)

lemma reachable_induct [consumes 1, case_names initial step]:
  assumes r: "reachable K devs sd pd envs w s"
    and init: "P (initial K (main_tasks devs sd pd envs) w)"
    and step: "\<And>s s'. reachable K devs sd pd envs w s \<Longrightarrow>
        loop_inv K (main_tasks devs sd pd envs) (device_events devs envs) s \<Longrightarrow> P s \<Longrightarrow>
        step s s' \<Longrightarrow> P s'"
  shows "P s"
proof -
  let ?s0 = "initial K (main_tasks devs sd pd envs) w"
  let ?I = "loop_inv K (main_tasks devs sd pd envs) (device_events devs envs)"
  have "rtranclp step ?s0 s" using r by (simp add: reachable_def)
  then have "?I s \<and> P s \<and> reachable K devs sd pd envs w s"
  proof induction
    case base
    have "?I ?s0"
      by (rule loop_inv_initial) (use main_tasks_blocks in \<open>simp add: device_events_def\<close>)
    with init show ?case by (simp add: reachable_def)
  next
    case (step a b)
    then have i: "?I a" and p: "P a" and ra: "reachable K devs sd pd envs w a" by simp_all
    from i step.hyps(2) have "?I b" by (rule loop_inv_step)
    moreover from ra i p step.hyps(2) have "P b" by (rule assms(3))
    moreover from ra step.hyps(2) have "reachable K devs sd pd envs w b"
      by (simp add: reachable_def)
    ultimately show ?case by simp
  qed
  then show ?thesis by simp
qed

lemma reachable_loop_inv:
  assumes "reachable K devs sd pd envs w s"
  shows "loop_inv K (main_tasks devs sd pd envs) (device_events devs envs) s"
  using assms
proof (induction rule: reachable_induct)
  case initial
  show ?case
    by (rule loop_inv_initial) (use main_tasks_blocks in \<open>simp add: device_events_def\<close>)
next
  case (step s s')
  from step.hyps(2,3) show ?case by (rule loop_inv_step)
qed

lemma reachable_world:
  assumes "reachable K devs sd pd envs w s"
  shows "dirs (world s) = dirs w \<and> realpath (world s) = realpath w"
  using assms
proof (induction rule: reachable_induct)
  case initial
  show ?case by (simp add: initial_def)
next
  case (step s s')
  from step.hyps(2,3) show ?case
    by (cases rule: step_cases) (use step.IH in \<open>auto simp: steady_def\<close>)
qed

lemma git_owners_block:
  "map fst (filter (\<lambda>p. is_run (snd p)) (map (Pair i) evs)) =
     replicate (length (filter is_run evs)) i"
  by (induction evs) simp_all

lemma distinct_remdups_adj_block:
  assumes "distinct (remdups_adj xs)" and "i \<notin> set xs"
  shows "distinct (remdups_adj (xs @ replicate n i))"
proof -
  have "xs = [] \<or> replicate n i = [] \<or> last xs \<noteq> hd (replicate n i)"
    using assms(2) by (cases "xs = []"; cases n) auto
  then have "remdups_adj (xs @ replicate n i) = remdups_adj xs @ remdups_adj (replicate n i)"
    by (rule remdups_adj_append')
  with assms show ?thesis
    by (simp add: remdups_adj_replicate)
qed

lemma remdups_adj_more:
  assumes "xs \<noteq> []" and "last xs = i"
  shows "remdups_adj (xs @ replicate n i) = remdups_adj xs"
proof -
  from assms have xs: "xs = butlast xs @ [i]" by (metis append_butlast_last_id)
  have "remdups_adj (butlast xs @ i # replicate n i) =
        remdups_adj (butlast xs @ [i]) @ tl (remdups_adj (i # replicate n i))"
    by (rule remdups_adj_append)
  moreover have "remdups_adj (i # replicate n i) = [i]"
    using remdups_adj_replicate [of "Suc n" i] by simp
  ultimately have "remdups_adj ((butlast xs @ [i]) @ replicate n i) = remdups_adj (butlast xs @ [i])"
    by simp
  with xs show ?thesis by simp
qed

lemma distinct_remdups_adj_extend:
  assumes "distinct (remdups_adj xs)" and "i \<in> set xs \<longrightarrow> last xs = i"
  shows "distinct (remdups_adj (xs @ replicate n i))"
proof (cases "i \<in> set xs")
  case False
  with assms(1) show ?thesis by (rule distinct_remdups_adj_block)
next
  case True
  then have "xs \<noteq> []" by auto
  moreover from True assms(2) have "last xs = i" by simp
  ultimately show ?thesis using assms(1) by (simp add: remdups_adj_more)
qed

lemma reachable_owners:
  assumes "reachable K devs sd pd envs w s"
  shows "distinct (remdups_adj (git_owners s)) \<and>
         (\<forall>j\<in>set (git_owners s).
            coros s ! j = Return () \<or> running s = Some j \<and> last (git_owners s) = j)"
  using assms
proof (induction rule: reachable_induct)
  case initial
  show ?case by (simp add: initial_def git_owners_def)
next
  case (step s s')
  from step.hyps(2,3) show ?case
  proof (cases rule: step_cases)
    case (resume i)
    with step.IH show ?thesis by (auto simp: git_owners_def)
  next
    case (acquire i b)
    have g: "git_owners s' = git_owners s" using acquire(8) by (simp add: git_owners_def)
    have "coros s' ! j = Return () \<or> running s' = Some j \<and> last (git_owners s') = j"
      if j: "j \<in> set (git_owners s)" for j
    proof (cases "j = i")
      case True
      with step.IH j acquire(1,3,4) have "last (git_owners s) = i" by auto
      with True g acquire(1,8) show ?thesis by simp
    next
      case False
      with step.IH j acquire(1) have "coros s ! j = Return ()" by auto
      with False acquire(8) show ?thesis by simp
    qed
    with step.IH g show ?thesis by simp
  next
    case (finish i)
    with step.IH show ?thesis by (auto simp: git_owners_def)
  next
    case (release i)
    have g: "git_owners s' = git_owners s" using release(5) by (simp add: git_owners_def)
    have "coros s' ! j = Return () \<or> running s' = Some j \<and> last (git_owners s') = j"
      if j: "j \<in> set (git_owners s)" for j
    proof (cases "j = i")
      case True
      with step.IH j release(1,3) have "last (git_owners s) = i" by auto
      with True g release(1,5) show ?thesis by simp
    next
      case False
      with step.IH j release(1) have "coros s ! j = Return ()" by auto
      with False release(5) show ?thesis by simp
    qed
    with step.IH g show ?thesis by simp
  next
    case (sync i f)
    let ?n = "length (filter is_run (new_events (world s) (fst (f (world s)))))"
    have g: "git_owners s' = git_owners s @ replicate ?n i"
      using sync(7) by (simp add: git_owners_def git_owners_block)
    have last_i: "i \<in> set (git_owners s) \<longrightarrow> last (git_owners s) = i"
      using step.IH sync(1,3) by auto
    have d: "distinct (remdups_adj (git_owners s'))"
      unfolding g using step.IH last_i by (simp add: distinct_remdups_adj_extend)
    have "coros s' ! j = Return () \<or> running s' = Some j \<and> last (git_owners s') = j"
      if j: "j \<in> set (git_owners s')" for j
    proof (cases "j = i")
      case True
      have "last (git_owners s') = i"
      proof (cases "?n = 0")
        case True
        with g j \<open>j = i\<close> last_i show ?thesis by simp
      next
        case False
        with g show ?thesis by simp
      qed
      with True sync(1,7) show ?thesis by simp
    next
      case False
      with j g have "j \<in> set (git_owners s)" by (auto split: if_splits)
      with step.IH sync(1) False have "coros s ! j = Return ()" by auto
      with False sync(7) show ?thesis by simp
    qed
    with d show ?thesis by blast
  qed
qed

lemma reachable_own_events:
  assumes "reachable K devs sd pd envs w s"
  shows "\<forall>p\<in>set (history s). fst p < length devs \<and> own_event (devs ! fst p) (envs (fst p)) (snd p)"
  using assms
proof (induction rule: reachable_induct)
  case initial
  show ?case by (simp add: initial_def)
next
  case (step s s')
  from step.hyps(2,3) show ?case
  proof (cases rule: step_cases)
    case (sync i f)
    from sync(5) obtain evs where
      evs: "trace (fst (f (world s))) = trace (world s) @ evs" "list_all (device_events devs envs i) evs"
      by (auto simp: steady_def)
    from evs(2) have "\<forall>e\<in>set evs. own_event (devs ! i) (envs i) e"
      by (simp add: list_all_iff device_events_def)
    with step.IH sync(2,7) evs(1) show ?thesis by (auto simp: new_events_def)
  qed (use step.IH in auto)
qed

lemma new_events_same [simp]: "new_events st st = []"
  by (simp add: new_events_def)

lemma steady_new_events: "steady Q st st' \<Longrightarrow> trace st' = trace st @ new_events st st'"
  by (auto simp: steady_def new_events_def)

lemma new_events_trans:
  assumes "steady Q a b" and "steady Q b c"
  shows "new_events a c = new_events a b @ new_events b c"
  using assms by (auto simp: steady_def new_events_def)

lemma finishing_steady:
  assumes "finishing Q c"
  shows "steady Q st (snd (sync c st))"
  using assms
proof (induction arbitrary: st)
  case Release
  show ?case by simp
next
  case (Sync f)
  from Sync.hyps(1) [of st] Sync.IH [of "fst (f st)" st] show ?case
    by (simp del: sync.simps add: steady_trans)
qed

lemma finishing_runs:
  assumes "finishing Q c" and "running s = Some i" and "i < length (coros s)" and "coros s ! i = c"
  shows "rtranclp step s (run_block i s)"
  using assms
proof (induction arbitrary: s)
  case Release
  from Release(1,2) have "step s (exec i s)" by (rule step.advance)
  moreover from Release(3) have "exec i s = run_block i s"
    by (simp add: exec_def run_block_def)
  ultimately show ?case by simp
next
  case (Sync f)
  let ?w = "world s" and ?w' = "fst (f (world s))" and ?c' = "snd (f (world s))"
  let ?s1 = "s\<lparr>coros := (coros s)[i := ?c'], world := ?w',
                history := history s @ map (Pair i) (new_events ?w ?w')\<rparr>"
  from Sync.prems(1,2) have "step s (exec i s)" by (rule step.advance)
  moreover from Sync.prems(3) have e: "exec i s = ?s1"
    by (cases "f (world s)") (simp add: exec_def)
  ultimately have s1: "step s ?s1" by simp
  have "rtranclp step ?s1 (run_block i ?s1)"
    by (rule Sync.IH [of _ "world s"]) (use Sync.prems in simp_all)
  moreover have "run_block i ?s1 = run_block i s"
  proof -
    have a: "steady Q ?w ?w'" by (rule Sync.hyps(1))
    have b: "steady Q ?w' (snd (sync ?c' ?w'))"
      using Sync.hyps(2) [of ?w] by (rule finishing_steady)
    from new_events_trans [OF a b] Sync.prems(2,3) show ?thesis
      by (simp del: sync.simps add: run_block_def)
  qed
  ultimately show ?case using s1 by simp
qed

lemma loop_inv_steps:
  assumes "rtranclp step s s'" and "loop_inv K cs0 Q s"
  shows "loop_inv K cs0 Q s'"
  using assms by induction (auto intro: loop_inv_step)

lemma run_task_steps:
  assumes inv: "loop_inv K cs0 Q s" and idle: "running s = None" and i: "i < length cs0"
    and c: "coros s ! i = cs0 ! i" and K: "0 < K"
  shows "rtranclp step s (run_task i s)"
proof -
  from inv i obtain b where b: "cs0 ! i = Acquire b" "finishing (Q i) b"
    by (auto simp: loop_inv_def)
  from inv idle have len: "length (coros s) = length cs0" and sem: "semaphore s = K"
    by (simp_all add: loop_inv_def)
  let ?s1 = "s\<lparr>running := Some i\<rparr>"
  let ?s2 = "s\<lparr>running := Some i, semaphore := K - 1, coros := (coros s)[i := b]\<rparr>"
  have "ready (coros s ! i) (semaphore s)" using c b sem K by (simp add: ready_def)
  with idle i len have 1: "step s ?s1" by (simp add: step.resume)
  have "step ?s1 (exec i ?s1)" by (rule step.advance) (use i len in simp_all)
  moreover have "exec i ?s1 = ?s2" using c b sem K by (simp add: exec_def)
  ultimately have 2: "step ?s1 ?s2" by simp
  have 3: "rtranclp step ?s2 (run_block i ?s2)"
    using b(2) by (rule finishing_runs) (use i len in simp_all)
  let ?s3 = "run_block i ?s2"
  have "step ?s3 (exec i ?s3)" by (rule step.advance) (use i len in \<open>simp_all add: run_block_def\<close>)
  moreover have "exec i ?s3 = run_task i s"
    using i len c b sem K idle by (cases s) (simp add: exec_def run_block_def run_task_def)
  ultimately have 4: "step ?s3 (run_task i s)" by simp
  from 1 2 3 4 show ?thesis by (meson converse_rtranclp_into_rtranclp rtranclp.rtrancl_into_rtrancl)
qed

lemma reachable_run_task:
  assumes r: "reachable K devs sd pd envs w s" and idle: "running s = None"
    and i: "i < length devs" and c: "coros s ! i = main_tasks devs sd pd envs ! i" and K: "0 < K"
  shows "reachable K devs sd pd envs w (run_task i s)"
proof -
  from r have "loop_inv K (main_tasks devs sd pd envs) (device_events devs envs) s"
    by (rule reachable_loop_inv)
  then have "rtranclp step s (run_task i s)"
    using idle _ c K by (rule run_task_steps) (simp add: i)
  with r show ?thesis by (simp add: reachable_def)
qed

section \<open>Git transactions are not interleaved\<close>

lemma remdups_adj_between:
  assumes "distinct (remdups_adj (a @ i # m @ i # d))"
  shows "set m \<subseteq> {i}"
  using assms
proof (induction m arbitrary: a)
  case Nil
  show ?case by simp
next
  case (Cons x m)
  show ?case
  proof (cases "x = i")
    case True
    from Cons.prems True have "distinct (remdups_adj ((a @ [i]) @ i # m @ i # d))" by simp
    then have "set m \<subseteq> {i}" by (rule Cons.IH)
    with True show ?thesis by simp
  next
    case False
    have split: "remdups_adj ((a @ [i]) @ x # (m @ i # d)) =
                 remdups_adj ((a @ [i]) @ [x]) @ tl (remdups_adj (x # (m @ i # d)))"
      by (rule remdups_adj_append)
    have "i \<in> set (remdups_adj ((a @ [i]) @ [x]))" by simp
    moreover have "i \<in> set (tl (remdups_adj (x # (m @ i # d))))"
    proof -
      have "remdups_adj (x # (m @ i # d)) \<noteq> []" by simp
      moreover have "hd (remdups_adj (x # (m @ i # d))) = x" by (simp add: hd_remdups_adj)
      ultimately have "remdups_adj (x # (m @ i # d)) = x # tl (remdups_adj (x # (m @ i # d)))"
        by (metis list.collapse)
      moreover have "i \<in> set (remdups_adj (x # (m @ i # d)))" by simp
      ultimately show ?thesis using False by (metis set_ConsD)
    qed
    ultimately have "\<not> distinct (remdups_adj ((a @ [i]) @ x # (m @ i # d)))"
      unfolding split by auto
    with Cons.prems show ?thesis by simp
  qed
qed

text \<open>
  Claim C1. In every state that the event loop can reach, whatever the number of devices,
  the capacity of the semaphore and the order in which tasks are resumed:
  \<^item> every \<open>subprocess.run\<close> in the history was made by the task of a device and runs
    \<open>git add\<close> or \<open>git commit\<close> of the file of that device, or \<open>git push\<close>;
  \<^item> the git commands of one task stand in the history without a git command of another
    task between them: between two git commands of task \<open>i\<close> every git command is one of
    task \<open>i\<close>.

  This follows from the code of the block: from \<open>async with semaphore\<close> to its end there
  is no suspension point, so a task that has entered the block keeps control until it
  has left it.
\<close>

theorem git_transactions_not_interleaved:
  assumes "reachable capacity devs script_dir pro_dir envs w s"
  shows "(\<forall>p\<in>set (history s).
            fst p < length devs \<and> own_event (devs ! fst p) (envs (fst p)) (snd p)) \<and>
         distinct (remdups_adj (git_owners s)) \<and>
         (\<forall>h1 h2 h3 h4 i j c1 d1 c2 d2 c3 d3.
            history s = h1 @ (i, Run c1 d1) # h2 @ (j, Run c2 d2) # h3 @ (i, Run c3 d3) # h4 \<longrightarrow>
            j = i)"
proof -
  have own: "\<forall>p\<in>set (history s).
            fst p < length devs \<and> own_event (devs ! fst p) (envs (fst p)) (snd p)"
    using assms by (rule reachable_own_events)
  have d: "distinct (remdups_adj (git_owners s))"
    using reachable_owners [OF assms] by simp
  have "j = i"
    if h: "history s = h1 @ (i, Run c1 d1) # h2 @ (j, Run c2 d2) # h3 @ (i, Run c3 d3) # h4"
    for h1 h2 h3 h4 i j c1 d1 c2 d2 c3 d3
  proof -
    let ?O = "\<lambda>h :: (nat \<times> event) list. map fst (filter (\<lambda>p. is_run (snd p)) h)"
    have "git_owners s = ?O h1 @ i # (?O h2 @ j # ?O h3) @ i # ?O h4"
      by (simp add: git_owners_def h)
    with d have "set (?O h2 @ j # ?O h3) \<subseteq> {i}"
      using remdups_adj_between [of "?O h1" i "?O h2 @ j # ?O h3" "?O h4"] by simp
    then show ?thesis by simp
  qed
  with own d show ?thesis by blast
qed

lemma example_run_reachable:
  "reachable MAX_CONCURRENT_BACKUPS example_devices ''/srv/app'' ''/srv/app/xxx'' example_envs
     example_state example_run"
proof -
  let ?r = "reachable MAX_CONCURRENT_BACKUPS example_devices ''/srv/app'' ''/srv/app/xxx''
              example_envs example_state"
  let ?cs = "main_tasks example_devices ''/srv/app'' ''/srv/app/xxx'' example_envs"
  have n: "0 < length example_devices" "1 < length example_devices"
    by (simp_all add: example_devices_def)
  have k: "0 < MAX_CONCURRENT_BACKUPS"
    by (simp add: MAX_CONCURRENT_BACKUPS_def)
  have a0: "running example_loop = None"
    by (simp add: example_loop_def initial_def)
  have c0: "coros example_loop ! 0 = ?cs ! 0"
    by (simp add: example_loop_def initial_def)
  have a1: "running (run_task 0 example_loop) = None"
    using a0 by (simp add: run_task_def)
  have "coros (run_task 0 example_loop) = (coros example_loop)[0 := Return ()]"
    by (simp add: run_task_def)
  then have c1: "coros (run_task 0 example_loop) ! 1 = ?cs ! 1"
    by (simp add: example_loop_def initial_def)
  have 0: "?r example_loop"
    by (simp add: reachable_def example_loop_def)
  from 0 a0 n(1) c0 k have 1: "?r (run_task 0 example_loop)"
    by (rule reachable_run_task)
  from 1 a1 n(2) c1 k have "?r (run_task 1 (run_task 0 example_loop))"
    by (rule reachable_run_task)
  then show ?thesis by (simp only: example_run_def)
qed

theorem git_transactions_not_interleaved_witness:
  "reachable MAX_CONCURRENT_BACKUPS example_devices ''/srv/app'' ''/srv/app/xxx'' example_envs
     example_state example_run \<and>
   distinct (remdups_adj (git_owners example_run))"
  using example_run_reachable git_transactions_not_interleaved [OF example_run_reachable]
  by simp

end
